theory Spec2Isabelle
  imports Complex_Main "HOL-Library.Multiset"
begin

section \<open>Travelling salesman by a genetic algorithm: the genome operators\<close>

text \<open>
  The development follows \<^verbatim>\<open>6-genetic_algo/tsp/travelling_salesman3.py\<close>.
  A chromosome is a Python list. Its entries are City objects, or Python's \<^verbatim>\<open>None\<close>
  while a crossover is filling a child, so a gene is an \<open>'a option\<close> with
  \<open>None\<close> for \<^verbatim>\<open>None\<close>. City has no \<^verbatim>\<open>__eq__\<close>: \<^verbatim>\<open>==\<close>, \<^verbatim>\<open>in\<close> and \<^verbatim>\<open>is\<close>
  all compare identities, which is equality on \<open>'a\<close>.

  The module draws from the process-wide generator of \<^verbatim>\<open>random\<close>. Every draw is an
  argument of the function that makes it: the theorems quantify over the draws.
\<close>

subsection \<open>Exceptions\<close>

datatype error =
    ValueError          \<comment> \<open>\<^verbatim>\<open>random.sample\<close> on fewer than two positions, \<^verbatim>\<open>list.index\<close> of an absent gene\<close>
  | IndexError          \<comment> \<open>an index outside a list\<close>
  | ZeroDivisionError   \<comment> \<open>\<^verbatim>\<open>1 / fitness\<close> on a tour of length zero\<close>
  | AttributeError      \<comment> \<open>\<^verbatim>\<open>None.position\<close>\<close>
  | TypeError           \<comment> \<open>unpacking \<^verbatim>\<open>None\<close> into two children\<close>
  | InvalidMutationType \<comment> \<open>\<^verbatim>\<open>Exception('Invalid mutation type')\<close>\<close>

subsection \<open>Python list primitives\<close>

text \<open>\<^verbatim>\<open>xs[i:j]\<close> for \<open>0 \<le> i\<close> and \<open>0 \<le> j\<close>: clipped to the list, empty when \<open>j \<le> i\<close>.\<close>

definition slice :: "nat \<Rightarrow> nat \<Rightarrow> 'a list \<Rightarrow> 'a list" where
  "slice i j xs = take (j - i) (drop i xs)"

text \<open>\<^verbatim>\<open>xs[i:j] = ys\<close> for \<open>i \<le> j\<close>: the result is \<^verbatim>\<open>xs[:i] + ys + xs[j:]\<close>.\<close>

definition slice_assign :: "nat \<Rightarrow> nat \<Rightarrow> 'a list \<Rightarrow> 'a list \<Rightarrow> 'a list" where
  "slice_assign i j xs ys = take i xs @ ys @ drop j xs"

text \<open>
  \<^verbatim>\<open>xs[i], xs[j] = xs[j], xs[i]\<close>: both right-hand sides are read first, then position
  \<open>i\<close> is written, then position \<open>j\<close>.
\<close>

definition swap_at :: "nat \<Rightarrow> nat \<Rightarrow> 'a list \<Rightarrow> 'a list" where
  "swap_at i j xs = xs[i := xs ! j, j := xs ! i]"

text \<open>
  The invariant of a Genome: its chromosome is a permutation of the full city set, every
  city exactly once and nothing else (no \<^verbatim>\<open>None\<close>).
\<close>

definition valid_permutation :: "'a set \<Rightarrow> 'a option list \<Rightarrow> bool" where
  "valid_permutation cities chromosome = (distinct chromosome \<and> set chromosome = Some ` cities)"

text \<open>
  \<^verbatim>\<open>random.sample(range(n), k=2)\<close>: raises ValueError when \<open>n < 2\<close>, and otherwise returns
  the drawn pair \<open>pts\<close>, two different positions below \<open>n\<close> (\<open>valid_sample\<close>).
\<close>

definition sample2 :: "nat \<Rightarrow> nat \<times> nat \<Rightarrow> error + nat \<times> nat" where
  "sample2 n pts = (if n < 2 then Inl ValueError else Inr pts)"

definition valid_sample :: "nat \<Rightarrow> nat \<times> nat \<Rightarrow> bool" where
  "valid_sample n pts = (fst pts < n \<and> snd pts < n \<and> fst pts \<noteq> snd pts)"

subsection \<open>Genome.mutate\<close>

text \<open>
  A mutation works in place. The model returns the exception raised, if any, together
  with the chromosome the genome holds afterwards.
\<close>

type_synonym 'a in_place = "error option \<times> 'a list"

definition swap_mutation :: "nat \<times> nat \<Rightarrow> 'a list \<Rightarrow> 'a in_place" where
  "swap_mutation pts chromosome =
     (case sample2 (length chromosome) pts of
        Inl e \<Rightarrow> (Some e, chromosome)
      | Inr (p1, p2) \<Rightarrow> (None, swap_at p1 p2 chromosome))"

definition inversion_mutation :: "nat \<times> nat \<Rightarrow> 'a list \<Rightarrow> 'a in_place" where
  "inversion_mutation pts chromosome =
     (case sample2 (length chromosome) pts of
        Inl e \<Rightarrow> (Some e, chromosome)
      | Inr (a, b) \<Rightarrow>
          (let p1 = min a b; p2 = max a b;
               genes = rev (slice p1 p2 chromosome)
           in (None, take p1 chromosome @ genes @ drop p2 chromosome)))"

definition two_opt_mutation :: "nat \<times> nat \<Rightarrow> 'a list \<Rightarrow> 'a in_place" where
  "two_opt_mutation pts chromosome =
     (case sample2 (length chromosome) pts of
        Inl e \<Rightarrow> (Some e, chromosome)
      | Inr (p1, p2) \<Rightarrow>
          (let edge1 = (p1, (p1 + 1) mod length chromosome);
               edge2 = (p2, (p2 + 1) mod length chromosome)
           in (None, swap_at (snd edge1) (fst edge2) chromosome)))"

text \<open>
  \<open>rand\<close> is the value of \<^verbatim>\<open>random.randrange(4)\<close>, one of 0, 1, 2, 3; it is drawn only
  for the type \<^verbatim>\<open>'random'\<close>.
\<close>

definition mutate :: "string \<Rightarrow> nat \<Rightarrow> nat \<times> nat \<Rightarrow> 'a list \<Rightarrow> 'a in_place" where
  "mutate type rand pts chromosome =
     (if type = ''swap'' then swap_mutation pts chromosome
      else if type = ''inverse'' then inversion_mutation pts chromosome
      else if type = ''2-opt'' then two_opt_mutation pts chromosome
      else if type = ''random'' then
        (if rand = 0 then swap_mutation pts chromosome
         else if rand = 1 then inversion_mutation pts chromosome
         else if rand = 2 then two_opt_mutation pts chromosome
         else (None, chromosome))
      else (Some InvalidMutationType, chromosome))"

subsection \<open>Genome.crossover\<close>

text \<open>
  \<^verbatim>\<open>orderly_insert\<close>: the parent is read from \<open>point2\<close> on, wrapping; a gene that is not
  yet in the child is written at the cursor \<open>p\<close>, which then moves on.
\<close>

definition orderly_insert :: "'a list \<Rightarrow> 'a list \<Rightarrow> nat \<Rightarrow> 'a list" where
  "orderly_insert parent_x child_x point2 =
     (let swapped_parent_x =
            map (\<lambda>i. parent_x ! (i mod length parent_x)) [point2 ..< point2 + length parent_x]
      in fst (fold (\<lambda>gene (child, p).
                      if gene \<notin> set child then (child[p mod length child := gene], p + 1)
                      else (child, p))
                swapped_parent_x (child_x, point2)))"

definition order_crossover ::
  "nat \<times> nat \<Rightarrow> 'a option list \<Rightarrow> 'a option list \<Rightarrow> error + 'a option list \<times> 'a option list" where
  "order_crossover pts parent1 parent2 =
     (case sample2 (length parent1) pts of
        Inl e \<Rightarrow> Inl e
      | Inr (a, b) \<Rightarrow>
          (let p1 = min a b; p2 = max a b;
               child1_chromosome =
                 slice_assign p1 p2 (replicate (length parent1) None) (slice p1 p2 parent2);
               child2_chromosome =
                 slice_assign p1 p2 (replicate (length parent2) None) (slice p1 p2 parent1)
           in Inr (orderly_insert parent1 child1_chromosome p2,
                   orderly_insert parent2 child2_chromosome p2)))"

text \<open>
  The crossovers below contain a recursion and a \<^verbatim>\<open>while\<close> loop. A run either does
  not return (\<open>None\<close>), raises (\<open>Some (Inl e)\<close>) or returns (\<open>Some (Inr v)\<close>).
\<close>

type_synonym 'r run = "(error + 'r) option"

definition and_then :: "'r run \<Rightarrow> ('r \<Rightarrow> 's run) \<Rightarrow> 's run" where
  "and_then m f = (case m of None \<Rightarrow> None | Some (Inl e) \<Rightarrow> Some (Inl e) | Some (Inr v) \<Rightarrow> f v)"

text \<open>
  \<^verbatim>\<open>get_gene_counterpart\<close>: the first pair that holds the gene gives its other component,
  the pair is removed from the list and the search starts again with the new gene.
\<close>

partial_function (option) get_gene_counterpart :: "'a \<Rightarrow> ('a \<times> 'a) list \<Rightarrow> 'a option" where
  "get_gene_counterpart gene mappings =
     (case find (\<lambda>mapped_values. gene = fst mapped_values \<or> gene = snd mapped_values) mappings of
        None \<Rightarrow> Some gene
      | Some mapped_values \<Rightarrow>
          get_gene_counterpart
            (if fst mapped_values \<noteq> gene then fst mapped_values else snd mapped_values)
            (remove1 mapped_values mappings))"

declare get_gene_counterpart.simps [code]

text \<open>The number of nested calls that \<^verbatim>\<open>get_gene_counterpart\<close> makes below the first one.\<close>

partial_function (option) get_gene_counterpart_depth :: "'a \<Rightarrow> ('a \<times> 'a) list \<Rightarrow> nat option" where
  "get_gene_counterpart_depth gene mappings =
     (case find (\<lambda>mapped_values. gene = fst mapped_values \<or> gene = snd mapped_values) mappings of
        None \<Rightarrow> Some 0
      | Some mapped_values \<Rightarrow>
          Option.bind
            (get_gene_counterpart_depth
               (if fst mapped_values \<noteq> gene then fst mapped_values else snd mapped_values)
               (remove1 mapped_values mappings))
            (\<lambda>d. Some (Suc d)))"

declare get_gene_counterpart_depth.simps [code]

text \<open>
  \<^verbatim>\<open>fill_chromosome\<close> of the partially-mapped crossover; \<open>p1\<close>, \<open>p2\<close> and \<open>mappings\<close> are
  the variables it closes over. Each call of \<^verbatim>\<open>get_gene_counterpart\<close> gets a copy of
  \<open>mappings\<close>.
\<close>

definition pmx_fill_chromosome ::
  "nat \<Rightarrow> nat \<Rightarrow> ('a \<times> 'a) list \<Rightarrow> 'a list \<Rightarrow> 'a list \<Rightarrow> 'a list run" where
  "pmx_fill_chromosome p1 p2 mappings chromosome parent_x =
     fold (\<lambda>i acc. and_then acc (\<lambda>ch.
             if i < p1 \<or> p2 \<le> i then
               (let gene = parent_x ! i in
                if gene \<notin> set ch then
                  (if length ch \<le> i then Some (Inl IndexError) else Some (Inr (ch[i := gene])))
                else
                  (case get_gene_counterpart gene mappings of
                     None \<Rightarrow> None
                   | Some g \<Rightarrow>
                       if length ch \<le> i then Some (Inl IndexError) else Some (Inr (ch[i := g]))))
             else Some (Inr ch)))
       [0 ..< length parent_x] (Some (Inr chromosome))"

definition partially_mapped_crossover ::
  "nat \<times> nat \<Rightarrow> 'a option list \<Rightarrow> 'a option list \<Rightarrow> ('a option list \<times> 'a option list) run" where
  "partially_mapped_crossover pts parent1 parent2 =
     (case sample2 (length parent1) pts of
        Inl e \<Rightarrow> Some (Inl e)
      | Inr (a, b) \<Rightarrow>
          (let p1 = min a b; p2 = max a b;
               parent1_segment = slice p1 p2 parent1;
               parent2_segment = slice p1 p2 parent2;
               mappings = zip parent1_segment parent2_segment;
               child1_x = slice_assign p1 p2 (replicate (length parent1) None) parent2_segment;
               child2_x = slice_assign p1 p2 (replicate (length parent1) None) parent1_segment
           in and_then (pmx_fill_chromosome p1 p2 mappings child1_x parent1) (\<lambda>c1.
              and_then (pmx_fill_chromosome p1 p2 mappings child2_x parent2) (\<lambda>c2.
              Some (Inr (c1, c2))))))"

text \<open>\<^verbatim>\<open>xs.index(x)\<close>: the first position of \<open>x\<close>; \<open>None\<close> stands for the ValueError.\<close>

fun index_of :: "'a \<Rightarrow> 'a list \<Rightarrow> nat option" where
  "index_of x [] = None"
| "index_of x (y # ys) = (if x = y then Some 0 else map_option Suc (index_of x ys))"

text \<open>
  The \<^verbatim>\<open>while not cycled\<close> loop of the cycle crossover, entered with \<open>index\<close> and
  \<open>parent1_gene\<close>; the two children are the lists built so far.
\<close>

partial_function (option) cycle_loop ::
  "'a list \<Rightarrow> 'a list \<Rightarrow> 'a \<Rightarrow> nat \<Rightarrow> 'a \<Rightarrow> 'a list \<Rightarrow> 'a list \<Rightarrow> (error + 'a list \<times> 'a list) option" where
  "cycle_loop parent1 parent2 parent1_first_gene index parent1_gene child1_x child2_x =
     (if length parent2 \<le> index \<or> length child1_x \<le> index \<or> length child2_x \<le> index
      then Some (Inl IndexError)
      else
        (let parent2_gene = parent2 ! index;
             child1_x = child1_x[index := parent1_gene];
             child2_x = child2_x[index := parent2_gene]
         in case index_of parent1_gene parent2 of
              None \<Rightarrow> Some (Inl ValueError)
            | Some index \<Rightarrow>
                if length parent1 \<le> index then Some (Inl IndexError)
                else
                  (let parent1_gene = parent1 ! index
                   in if parent1_gene = parent1_first_gene then Some (Inr (child1_x, child2_x))
                      else cycle_loop parent1 parent2 parent1_first_gene index parent1_gene
                             child1_x child2_x)))"

declare cycle_loop.simps [code]

text \<open>\<^verbatim>\<open>fill_chromosome\<close> of the cycle crossover: the slots still \<^verbatim>\<open>None\<close> take the parent's gene.\<close>

definition cx_fill_chromosome :: "'a option list \<Rightarrow> 'a option list \<Rightarrow> error + 'a option list" where
  "cx_fill_chromosome chromosome parent_x =
     fold (\<lambda>i acc. case acc of
                      Inl e \<Rightarrow> Inl e
                    | Inr ch \<Rightarrow>
                        if ch ! i = None then
                          (if length parent_x \<le> i then Inl IndexError else Inr (ch[i := parent_x ! i]))
                        else Inr ch)
       [0 ..< length chromosome] (Inr chromosome)"

definition cycle_crossover ::
  "'a option list \<Rightarrow> 'a option list \<Rightarrow> ('a option list \<times> 'a option list) run" where
  "cycle_crossover parent1 parent2 =
     (if parent1 = [] then Some (Inl IndexError)
      else
        (let index = 0;
             child1_x = replicate (length parent1) None;
             child2_x = replicate (length parent1) None;
             parent1_first_gene = parent1 ! index
         in and_then (cycle_loop parent1 parent2 parent1_first_gene index parent1_first_gene
                        child1_x child2_x) (\<lambda>(child1_x, child2_x).
            case cx_fill_chromosome child1_x parent2 of
              Inl e \<Rightarrow> Some (Inl e)
            | Inr child1_x \<Rightarrow>
                (case cx_fill_chromosome child2_x parent1 of
                   Inl e \<Rightarrow> Some (Inl e)
                 | Inr child2_x \<Rightarrow> Some (Inr (child1_x, child2_x))))))"

text \<open>
  \<^verbatim>\<open>Genome.crossover\<close>. The \<^verbatim>\<open>if\<close>/\<^verbatim>\<open>elif\<close> chain has no \<^verbatim>\<open>else\<close>: for any other type the
  method falls off its end and returns Python's \<^verbatim>\<open>None\<close>, here \<open>Inr None\<close>. \<open>pts\<close> is the
  pair drawn by \<^verbatim>\<open>'ox'\<close> and \<^verbatim>\<open>'pmx'\<close>; \<^verbatim>\<open>'cx'\<close> draws nothing.
\<close>

definition crossover ::
  "nat \<times> nat \<Rightarrow> 'a option list \<Rightarrow> 'a option list \<Rightarrow> string \<Rightarrow>
     (('a option list \<times> 'a option list) option) run" where
  "crossover pts parent1 parent2 c_type =
     (if c_type = ''ox'' then
        (case order_crossover pts parent1 parent2 of
           Inl e \<Rightarrow> Some (Inl e) | Inr children \<Rightarrow> Some (Inr (Some children)))
      else if c_type = ''pmx'' then
        and_then (partially_mapped_crossover pts parent1 parent2) (\<lambda>children. Some (Inr (Some children)))
      else if c_type = ''cx'' then
        and_then (cycle_crossover parent1 parent2) (\<lambda>children. Some (Inr (Some children)))
      else Some (Inr None))"

section \<open>Fitness\<close>

text \<open>
  A City carries its position, its index and its name. \<^verbatim>\<open>distance\<close> is \<^verbatim>\<open>math.dist\<close> of
  two positions and \<^verbatim>\<open>get_fitness\<close> adds the distances along the closed tour, in floating
  point in the program. Here both compute with real numbers, that is, without rounding.
\<close>

record city =
  position :: "real \<times> real"
  idx :: nat
  name :: string

definition distance :: "city \<Rightarrow> city \<Rightarrow> real" where
  "distance city1 city2 =
     sqrt ((fst (position city1) - fst (position city2))\<^sup>2
         + (snd (position city1) - snd (position city2))\<^sup>2)"

definition get_fitness :: "city option list \<Rightarrow> error + real" where
  "get_fitness chromosome =
     (case fold (\<lambda>i acc. case acc of
                            Inl e \<Rightarrow> Inl e
                          | Inr fitness \<Rightarrow>
                              (case chromosome ! i of
                                 None \<Rightarrow> Inl AttributeError
                               | Some city1 \<Rightarrow>
                                   (case chromosome ! ((i + 1) mod length chromosome) of
                                      None \<Rightarrow> Inl AttributeError
                                    | Some city2 \<Rightarrow> Inr (fitness + distance city1 city2))))
             [0 ..< length chromosome] (Inr 0) of
        Inl e \<Rightarrow> Inl e
      | Inr fitness \<Rightarrow> if fitness = 0 then Inl ZeroDivisionError else Inr (1 / fitness))"

section \<open>Population\<close>

text \<open>The module's global variables.\<close>

definition POPULATION :: nat where "POPULATION = 100"
definition ELITISM :: nat where "ELITISM = 10"
definition TOP_K :: nat where "TOP_K = POPULATION div 4"

text \<open>
  Genome objects live on the heap and \<^verbatim>\<open>Population.members\<close> holds references to them. A
  reference is a number; \<open>chromosome_of\<close> gives the chromosome of the object behind a
  reference and the references below \<open>allocated\<close> are those in use. Every Genome the
  population creates owns its list (a fresh \<^verbatim>\<open>random.sample\<close> or a fresh child list), so
  the list is stored with the object.
\<close>

record 'a population =
  chromosome_of :: "nat \<Rightarrow> 'a option list"
  allocated :: nat
  pop_size :: nat
  members :: "nat list"

text \<open>\<^verbatim>\<open>Genome(chromosome)\<close>: a new object, with a reference no other object has.\<close>

definition new_genome :: "'a option list \<Rightarrow> 'a population \<Rightarrow> nat \<times> 'a population" where
  "new_genome chromosome P =
     (allocated P,
      P\<lparr>chromosome_of := (chromosome_of P)(allocated P := chromosome),
        allocated := Suc (allocated P)\<rparr>)"

text \<open>\<^verbatim>\<open>xs[-k:]\<close> for \<open>k \<ge> 0\<close>: the last \<open>k\<close> entries, and the whole list when \<open>k = 0\<close>.\<close>

definition last_slice :: "nat \<Rightarrow> 'a list \<Rightarrow> 'a list" where
  "last_slice k xs = (if k = 0 then xs else drop (length xs - k) xs)"

text \<open>The keys of \<^verbatim>\<open>sorted\<close> are computed first, member by member; the first raise ends it.\<close>

fun collect_keys :: "(error + 'k) list \<Rightarrow> error + 'k list" where
  "collect_keys [] = Inr []"
| "collect_keys (Inl e # ks) = Inl e"
| "collect_keys (Inr k # ks) = (case collect_keys ks of Inl e \<Rightarrow> Inl e | Inr ks' \<Rightarrow> Inr (k # ks'))"

text \<open>
  \<^verbatim>\<open>__sort_members\<close>: \<^verbatim>\<open>sorted(self.members, key=lambda x: x.get_fitness())\<close>, ascending and
  stable. \<open>fit\<close> is \<^verbatim>\<open>get_fitness\<close> as a function of the chromosome. It is a parameter, with
  keys in any linear order, so that what follows does not depend on how the floating
  point sum rounds.
\<close>

definition sort_members ::
  "('a option list \<Rightarrow> error + 'k::linorder) \<Rightarrow> 'a population \<Rightarrow> error + nat list" where
  "sort_members fit P =
     (case collect_keys (map (\<lambda>x. fit (chromosome_of P x)) (members P)) of
        Inl e \<Rightarrow> Inl e
      | Inr keys \<Rightarrow> Inr (map snd (sort_key fst (zip keys (members P)))))"

text \<open>
  \<^verbatim>\<open>__top_k_selection\<close>: \<^verbatim>\<open>random.choices(top_k, k=n)\<close> draws \<open>n\<close> positions of \<open>top_k\<close>, with
  replacement; \<open>picks i\<close> is the \<open>i\<close>-th number drawn, reduced to a position of \<open>top_k\<close>.
  A negative \<open>n\<close> gives no parents, as \<open>n = 0\<close> does.
\<close>

definition top_k_selection ::
  "('a option list \<Rightarrow> error + 'k::linorder) \<Rightarrow> (nat \<Rightarrow> nat) \<Rightarrow> 'a population \<Rightarrow> nat \<Rightarrow> nat \<Rightarrow>
     error + nat list" where
  "top_k_selection fit picks P n k =
     (case sort_members fit P of
        Inl e \<Rightarrow> Inl e
      | Inr sorted_members \<Rightarrow>
          (let top_k = last_slice k sorted_members
           in if 0 < n \<and> top_k = [] then Inl IndexError
              else Inr (map (\<lambda>i. top_k ! (picks i mod length top_k)) [0 ..< n])))"

text \<open>What one pass of the reproduction loop draws: the cut points, then the draws of the two mutations.\<close>

record pair_draws =
  cross_points :: "nat \<times> nat"
  rand1 :: nat
  points1 :: "nat \<times> nat"
  rand2 :: nat
  points2 :: "nat \<times> nat"

text \<open>\<^verbatim>\<open>child.mutate(type=m_type)\<close> on the object behind \<open>child\<close>.\<close>

definition mutate_genome ::
  "string \<Rightarrow> nat \<Rightarrow> nat \<times> nat \<Rightarrow> nat \<Rightarrow> 'a population \<Rightarrow> error option \<times> 'a population" where
  "mutate_genome m_type rand pts child P =
     (case mutate m_type rand pts (chromosome_of P child) of
        (raised, chromosome) \<Rightarrow>
          (raised, P\<lparr>chromosome_of := (chromosome_of P)(child := chromosome)\<rparr>))"

text \<open>
  The body of \<^verbatim>\<open>for i in range(0, parents_n, 2)\<close>. The state is the heap (in \<open>P\<close>, whose
  \<open>members\<close> stay as they are) and \<open>next_gen_members\<close>.
\<close>

definition reproduce ::
  "string \<Rightarrow> string \<Rightarrow> nat list \<Rightarrow> (nat \<Rightarrow> pair_draws) \<Rightarrow> nat \<Rightarrow> 'a population \<times> nat list \<Rightarrow>
     ('a population \<times> nat list) run" where
  "reproduce c_type m_type parents draws i state =
     (case state of (P, next_gen_members) \<Rightarrow>
        if length parents \<le> i + 1 then Some (Inl IndexError)
        else
          (let parent1 = parents ! i; parent2 = parents ! (i + 1)
           in and_then (crossover (cross_points (draws i))
                          (chromosome_of P parent1) (chromosome_of P parent2) c_type)
                (\<lambda>children. case children of
                   None \<Rightarrow> Some (Inl TypeError)
                 | Some (child1_x, child2_x) \<Rightarrow>
                     (let (child1, P) = new_genome child1_x P;
                          (child2, P) = new_genome child2_x P
                      in case mutate_genome m_type (rand1 (draws i)) (points1 (draws i)) child1 P of
                           (Some e, P) \<Rightarrow> Some (Inl e)
                         | (None, P) \<Rightarrow>
                             (case mutate_genome m_type (rand2 (draws i)) (points2 (draws i)) child2 P of
                                (Some e, P) \<Rightarrow> Some (Inl e)
                              | (None, P) \<Rightarrow>
                                  Some (Inr (P, next_gen_members @ [child1, child2])))))))"

text \<open>
  \<^verbatim>\<open>generate_next_generation\<close>. \<open>elitism\<close> and \<open>top_k\<close> are the globals \<^verbatim>\<open>ELITISM\<close> and \<^verbatim>\<open>TOP_K\<close>
  as the call finds them. It returns the population after the step and the reference it
  hands back; \<^verbatim>\<open>self.members\<close> is assigned last, so a raise leaves the members as they were.
\<close>

definition generate_next_generation ::
  "nat \<Rightarrow> nat \<Rightarrow> ('a option list \<Rightarrow> error + 'k::linorder) \<Rightarrow> (nat \<Rightarrow> nat) \<Rightarrow> (nat \<Rightarrow> pair_draws) \<Rightarrow>
     string \<Rightarrow> string \<Rightarrow> 'a population \<Rightarrow> ('a population \<times> nat) run" where
  "generate_next_generation elitism top_k fit picks draws c_type m_type P =
     (let next_gen_members = [];
          parents_n = pop_size P - elitism
      in case top_k_selection fit picks P parents_n top_k of
           Inl e \<Rightarrow> Some (Inl e)
         | Inr parents \<Rightarrow>
             and_then
               (fold (\<lambda>i acc. and_then acc (reproduce c_type m_type parents draws i))
                  (map (\<lambda>j. 2 * j) [0 ..< (parents_n + 1) div 2])
                  (Some (Inr (P, next_gen_members))))
               (\<lambda>(P, next_gen_members).
                  case sort_members fit P of
                    Inl e \<Rightarrow> Some (Inl e)
                  | Inr sorted_members \<Rightarrow>
                      (let next_gen_members = next_gen_members @ last_slice elitism sorted_members
                       in if sorted_members = [] then Some (Inl IndexError)
                          else Some (Inr (P\<lparr>members := next_gen_members\<rparr>, last sorted_members)))))"

text \<open>The members are objects that exist: their references are in use.\<close>

definition members_allocated :: "'a population \<Rightarrow> bool" where
  "members_allocated P = list_all (\<lambda>r. r < allocated P) (members P)"

subsection \<open>A population of four tours\<close>

text \<open>
  Four cities on the corners of a rectangle with the sides 3 and 4, and four genomes: the
  tours of the references 0, 1, 2 and 3 have the lengths 16, 14, 18 and 14.
\<close>

definition city_A :: city where "city_A = \<lparr>position = (0, 0), idx = 0, name = ''A''\<rparr>"

definition city_B :: city where "city_B = \<lparr>position = (0, 3), idx = 1, name = ''B''\<rparr>"

definition city_C :: city where "city_C = \<lparr>position = (4, 0), idx = 2, name = ''C''\<rparr>"

definition city_D :: city where "city_D = \<lparr>position = (4, 3), idx = 3, name = ''D''\<rparr>"

definition four_tours :: "city population" where
  "four_tours =
     \<lparr>chromosome_of =
        (\<lambda>r. if r = 0 then map Some [city_A, city_B, city_C, city_D]
              else if r = 1 then map Some [city_A, city_B, city_D, city_C]
              else if r = 2 then map Some [city_A, city_D, city_B, city_C]
              else if r = 3 then map Some [city_B, city_A, city_C, city_D]
              else []),
      allocated = 4, pop_size = 4, members = [0, 1, 2, 3]\<rparr>"

text \<open>The draws of a step: the cut points (0, 2), then a swap of the positions 0 and 1 and one of 2 and 3.\<close>

definition fixed_draws :: "nat \<Rightarrow> pair_draws" where
  "fixed_draws i = \<lparr>cross_points = (0, 2), rand1 = 0, points1 = (0, 1), rand2 = 0, points2 = (2, 3)\<rparr>"

section \<open>Properties of the genome operators\<close>

subsection \<open>Sequencing runs\<close>

lemma and_then_Inr:
  "and_then m f = Some (Inr r) \<longleftrightarrow> (\<exists>v. m = Some (Inr v) \<and> f v = Some (Inr r))"
  by (auto simp: and_then_def split: option.splits sum.splits)

lemma and_then_simps [simp]:
  "and_then None f = None"
  "and_then (Some (Inl e)) f = Some (Inl e)"
  "and_then (Some (Inr v)) f = f v"
  by (simp_all add: and_then_def)

subsection \<open>The recursion of the partially-mapped crossover returns\<close>

lemma find_mapping_in_set:
  "find P mappings = Some mv \<Longrightarrow> mv \<in> set mappings"
  by (induction mappings) (auto split: if_splits)

lemma length_remove1_found:
  "find P mappings = Some mv \<Longrightarrow> length (remove1 mv mappings) < length mappings"
  using find_mapping_in_set [of P mappings mv]
  by (auto simp: length_remove1 dest: length_pos_if_in_set)

lemma get_gene_counterpart_returns:
  "\<exists>g. get_gene_counterpart gene mappings = Some g"
proof (induction "length mappings" arbitrary: gene mappings rule: less_induct)
  case less
  show ?case
  proof (cases "find (\<lambda>mv. gene = fst mv \<or> gene = snd mv) mappings")
    case None
    then show ?thesis by (subst get_gene_counterpart.simps) simp
  next
    case (Some mv)
    from less [OF length_remove1_found [OF Some]]
    obtain g where "get_gene_counterpart (if fst mv \<noteq> gene then fst mv else snd mv)
                      (remove1 mv mappings) = Some g" by blast
    with Some show ?thesis by (subst get_gene_counterpart.simps) simp
  qed
qed

lemma get_gene_counterpart_depth_bounded:
  "\<exists>d. get_gene_counterpart_depth gene mappings = Some d \<and> d \<le> length mappings"
proof (induction "length mappings" arbitrary: gene mappings rule: less_induct)
  case less
  show ?case
  proof (cases "find (\<lambda>mv. gene = fst mv \<or> gene = snd mv) mappings")
    case None
    then show ?thesis by (subst get_gene_counterpart_depth.simps) simp
  next
    case (Some mv)
    have shorter: "length (remove1 mv mappings) < length mappings"
      by (rule length_remove1_found [OF Some])
    from less [OF shorter]
    obtain d where "get_gene_counterpart_depth (if fst mv \<noteq> gene then fst mv else snd mv)
                      (remove1 mv mappings) = Some d" and "d \<le> length (remove1 mv mappings)"
      by blast
    with Some shorter show ?thesis by (subst get_gene_counterpart_depth.simps) simp
  qed
qed

lemma pmx_fill_step_returns:
  "fold (\<lambda>i acc. and_then acc (\<lambda>ch.
             if i < p1 \<or> p2 \<le> i then
               (let gene = parent_x ! i in
                if gene \<notin> set ch then
                  (if length ch \<le> i then Some (Inl IndexError) else Some (Inr (ch[i := gene])))
                else
                  (case get_gene_counterpart gene mappings of
                     None \<Rightarrow> None
                   | Some g \<Rightarrow>
                       if length ch \<le> i then Some (Inl IndexError) else Some (Inr (ch[i := g]))))
             else Some (Inr ch))) is (Some r) \<noteq> None"
proof (induction "is" arbitrary: r)
  case Nil
  then show ?case by simp
next
  case (Cons i "is")
  show ?case
  proof (cases r)
    case (Inl e)
    with Cons show ?thesis by (simp add: and_then_def)
  next
    case (Inr ch)
    obtain g where "get_gene_counterpart (parent_x ! i) mappings = Some g"
      using get_gene_counterpart_returns [of "parent_x ! i" mappings] by blast
    with Inr Cons show ?thesis by (simp add: and_then_def Let_def)
  qed
qed

lemma pmx_fill_chromosome_returns:
  "\<exists>r. pmx_fill_chromosome p1 p2 mappings chromosome parent_x = Some r"
  unfolding pmx_fill_chromosome_def using pmx_fill_step_returns by blast

lemma partially_mapped_crossover_returns:
  "\<exists>r. partially_mapped_crossover pts parent1 parent2 = Some r"
proof (cases "sample2 (length parent1) pts")
  case (Inl e)
  then show ?thesis by (simp add: partially_mapped_crossover_def)
next
  case (Inr ab)
  obtain a b where ab: "ab = (a, b)" by (cases ab)
  define p1 where "p1 = min a b"
  define p2 where "p2 = max a b"
  define m where "m = zip (slice p1 p2 parent1) (slice p1 p2 parent2)"
  obtain r1 where r1: "pmx_fill_chromosome p1 p2 m
      (slice_assign p1 p2 (replicate (length parent1) None) (slice p1 p2 parent2)) parent1 = Some r1"
    using pmx_fill_chromosome_returns by blast
  obtain r2 where r2: "pmx_fill_chromosome p1 p2 m
      (slice_assign p1 p2 (replicate (length parent1) None) (slice p1 p2 parent1)) parent2 = Some r2"
    using pmx_fill_chromosome_returns by blast
  show ?thesis
    using Inr ab r1 r2
    by (cases r1; cases r2)
       (simp_all add: partially_mapped_crossover_def Let_def and_then_def p1_def p2_def m_def)
qed

text \<open>
  C10. For every gene and every list of mapping pairs \<^verbatim>\<open>get_gene_counterpart\<close> returns: each
  nested call works on a list one pair shorter, so it makes at most as many nested calls
  as the list has pairs, and the partially-mapped crossover, whose other loops are
  bounded, returns as well (with two children or with an exception).
\<close>

theorem get_gene_counterpart_terminates:
  "(\<exists>g. get_gene_counterpart gene mappings = Some g) \<and>
   (\<exists>d. get_gene_counterpart_depth gene mappings = Some d \<and> d \<le> length mappings) \<and>
   (\<exists>r. partially_mapped_crossover pts parent1 parent2 = Some r)"
  using get_gene_counterpart_returns [of gene mappings]
    get_gene_counterpart_depth_bounded [of gene mappings]
    partially_mapped_crossover_returns [of pts parent1 parent2]
  by blast

subsection \<open>The edge exchange\<close>

text \<open>
  The statement that the edge exchange swaps the successors of both drawn positions
  fails: with the positions 0 and 2 drawn on a chromosome of four cities, the result is
  not the chromosome with the positions 1 and 3 exchanged.
\<close>

theorem two_opt_claimed_swap_counterexample:
  "valid_sample (length [0, 1, 2, 3 :: nat]) (0, 2) \<and>
   two_opt_mutation (0, 2) [0, 1, 2, 3 :: nat]
     \<noteq> (None, swap_at ((0 + 1) mod 4) ((2 + 1) mod 4) [0, 1, 2, 3])"
  by (simp add: valid_sample_def two_opt_mutation_def sample2_def swap_at_def)

text \<open>
  C3, as amended. For a chromosome of length \<open>n \<ge> 2\<close> and two distinct drawn positions
  \<open>p1\<close> and \<open>p2\<close>, the edge exchange swaps the cities at the positions \<open>(p1 + 1) mod n\<close>
  and \<open>p2\<close> (the end of the first edge and the start of the second); every other
  position keeps its city.
\<close>

theorem two_opt_mutation_swaps_successor_of_first_with_second:
  assumes "valid_sample (length chromosome) (p1, p2)"
  shows "\<exists>c'. two_opt_mutation (p1, p2) chromosome = (None, c') \<and>
           length c' = length chromosome \<and>
           c' ! ((p1 + 1) mod length chromosome) = chromosome ! p2 \<and>
           c' ! p2 = chromosome ! ((p1 + 1) mod length chromosome) \<and>
           (\<forall>i < length chromosome.
              i \<noteq> (p1 + 1) mod length chromosome \<longrightarrow> i \<noteq> p2 \<longrightarrow> c' ! i = chromosome ! i)"
proof -
  from assms have n: "\<not> length chromosome < 2" and p2: "p2 < length chromosome"
    by (auto simp: valid_sample_def)
  then have "0 < length chromosome" by linarith
  then have s1: "(p1 + 1) mod length chromosome < length chromosome"
    by (rule mod_less_divisor)
  show ?thesis
    using n p2 s1
    by (auto simp: two_opt_mutation_def sample2_def swap_at_def nth_list_update)
qed

text \<open>The amended statement at the positions 0 and 2 of a chromosome of four cities.\<close>

theorem two_opt_mutation_swaps_successor_of_first_with_second_witness:
  "valid_sample (length [10, 11, 12, 13 :: nat]) (0, 2) \<and>
   two_opt_mutation (0, 2) [10, 11, 12, 13 :: nat] = (None, [10, 12, 11, 13])"
  using two_opt_mutation_swaps_successor_of_first_with_second [of "[10, 11, 12, 13 :: nat]" 0 2]
  by (simp add: valid_sample_def two_opt_mutation_def sample2_def swap_at_def)

subsection \<open>The random mutation\<close>

text \<open>
  C4. \<^verbatim>\<open>random.randrange(4)\<close> has four outcomes and \<^verbatim>\<open>mutate('random')\<close> has a branch for
  three of them: when 3 is drawn no mutation is applied, whatever the chromosome and the
  other draws.
\<close>

theorem mutate_random_draw_three_applies_nothing:
  "mutate ''random'' 3 pts chromosome = (None, chromosome)"
  by (simp add: mutate_def)

subsection \<open>The order crossover on the scenario of the specification\<close>

text \<open>
  The first child of the parents [1,2,3,4,5] and [5,4,3,2,1] with the cut points (1,3)
  is not [5,4,3,1,2].
\<close>

theorem order_crossover_scenario_counterexample:
  "fst (projr (order_crossover (1, 3) (map Some [1, 2, 3, 4, 5 :: int]) (map Some [5, 4, 3, 2, 1])))
     \<noteq> map Some [5, 4, 3, 1, 2]"
  by (simp add: order_crossover_def sample2_def slice_def slice_assign_def orderly_insert_def
        upt_rec [of _ "numeral _"])

text \<open>
  C5, as amended. For the parents [1,2,3,4,5] and [5,4,3,2,1] with the cut points (1,3)
  the order crossover gives child1 = [2,4,3,5,1]: it holds the segment [4,3] of parent2
  at the positions 1 and 2, and the genes of parent1 read from index 3 on, wrapping and
  skipping 4 and 3, that is 5, 1, 2, are written from position 3 on, wrapping. The second
  child is [4,2,3,1,5].
\<close>

theorem order_crossover_scenario:
  "order_crossover (1, 3) (map Some [1, 2, 3, 4, 5 :: int]) (map Some [5, 4, 3, 2, 1])
     = Inr (map Some [2, 4, 3, 5, 1], map Some [4, 2, 3, 1, 5])"
  by (simp add: order_crossover_def sample2_def slice_def slice_assign_def orderly_insert_def
        upt_rec [of _ "numeral _"])

subsection \<open>Unsupported kinds\<close>

text \<open>An unsupported mutation type raises and leaves the chromosome as it was.\<close>

lemma mutate_unsupported_type_raises:
  "type \<notin> {''swap'', ''inverse'', ''2-opt'', ''random''} \<Longrightarrow>
     mutate type rand pts chromosome = (Some InvalidMutationType, chromosome)"
  by (simp add: mutate_def)

text \<open>
  C9. \<^verbatim>\<open>Genome.crossover\<close> with a type other than \<^verbatim>\<open>'ox'\<close>, \<^verbatim>\<open>'pmx'\<close> and \<^verbatim>\<open>'cx'\<close> raises nothing:
  it returns \<^verbatim>\<open>None\<close>.
\<close>

theorem crossover_unsupported_type_returns_None:
  "crossover (0, 1) (map Some [1, 2 :: int]) (map Some [2, 1]) ''uniform'' = Some (Inr None)"
  by (simp add: crossover_def)

section \<open>The operators keep the chromosome a permutation\<close>

subsection \<open>Mutations\<close>

lemma valid_sample_bounds:
  assumes "valid_sample n pts"
  shows "fst pts < n" "snd pts < n" "fst pts \<noteq> snd pts" "\<not> n < 2"
    "min (fst pts) (snd pts) < max (fst pts) (snd pts)" "max (fst pts) (snd pts) < n"
  using assms by (auto simp: valid_sample_def)

lemma mset_swap_at:
  "i < length xs \<Longrightarrow> j < length xs \<Longrightarrow> mset (swap_at i j xs) = mset xs"
  unfolding swap_at_def by (simp add: mset_swap)

lemma slice_parts:
  "p1 \<le> p2 \<Longrightarrow> take p1 xs @ slice p1 p2 xs @ drop p2 xs = xs"
proof -
  assume "p1 \<le> p2"
  then have "drop p2 xs = drop (p2 - p1) (drop p1 xs)" by simp
  then have "slice p1 p2 xs @ drop p2 xs = drop p1 xs"
    unfolding slice_def by (simp only: append_take_drop_id)
  then show ?thesis by simp
qed

lemma mset_slice_parts:
  "p1 \<le> p2 \<Longrightarrow> mset (take p1 xs) + mset (slice p1 p2 xs) + mset (drop p2 xs) = mset xs"
  using slice_parts [of p1 p2 xs] by (metis mset_append union_assoc)

lemma swap_mutation_permutes:
  assumes "valid_sample (length chromosome) pts"
  shows "\<exists>c. swap_mutation pts chromosome = (None, c) \<and> mset c = mset chromosome"
  using valid_sample_bounds [OF assms]
  by (cases pts) (simp add: swap_mutation_def sample2_def mset_swap_at)

lemma inversion_mutation_permutes:
  assumes "valid_sample (length chromosome) pts"
  shows "\<exists>c. inversion_mutation pts chromosome = (None, c) \<and> mset c = mset chromosome"
proof -
  obtain a b where pts: "pts = (a, b)" by (cases pts)
  from valid_sample_bounds [OF assms] pts have le: "min a b \<le> max a b" and n: "\<not> length chromosome < 2"
    by simp_all
  from mset_slice_parts [OF le, of chromosome] n show ?thesis
    by (simp add: inversion_mutation_def sample2_def pts Let_def add.assoc)
qed

lemma two_opt_mutation_permutes:
  assumes "valid_sample (length chromosome) pts"
  shows "\<exists>c. two_opt_mutation pts chromosome = (None, c) \<and> mset c = mset chromosome"
proof -
  obtain p1 p2 where pts: "pts = (p1, p2)" by (cases pts)
  from valid_sample_bounds [OF assms] pts have n: "\<not> length chromosome < 2" and p2: "p2 < length chromosome"
    by simp_all
  then have "0 < length chromosome" by linarith
  then have "(p1 + 1) mod length chromosome < length chromosome" by (rule mod_less_divisor)
  with n p2 show ?thesis
    by (simp add: two_opt_mutation_def sample2_def pts mset_swap_at)
qed

lemma mutate_permutes:
  assumes "valid_sample (length chromosome) pts"
    and "m_type \<in> {''swap'', ''inverse'', ''2-opt'', ''random''}"
  shows "\<exists>c. mutate m_type rand pts chromosome = (None, c) \<and> mset c = mset chromosome"
  using assms(2) swap_mutation_permutes [OF assms(1)] inversion_mutation_permutes [OF assms(1)]
    two_opt_mutation_permutes [OF assms(1)]
  by (auto simp: mutate_def)

subsection \<open>Order crossover\<close>

lemma wrapped_read_is_rotate:
  "map (\<lambda>i. xs ! (i mod length xs)) [k ..< k + length xs] = rotate k xs"
proof (rule nth_equalityI)
  show "length (map (\<lambda>i. xs ! (i mod length xs)) [k ..< k + length xs]) = length (rotate k xs)"
    by simp
next
  fix i assume "i < length (map (\<lambda>i. xs ! (i mod length xs)) [k ..< k + length xs])"
  then have i: "i < length xs" by simp
  then show "map (\<lambda>i. xs ! (i mod length xs)) [k ..< k + length xs] ! i = rotate k xs ! i"
    by (simp add: nth_rotate)
qed

lemma same_residue_le:
  fixes j k n p :: nat
  assumes eq: "(p + j) mod n = (p + k) mod n" and le: "j \<le> k" and k: "k < n"
  shows "j = k"
proof -
  from le have "p + j \<le> p + k" by simp
  with eq [symmetric] have "n dvd (p + k) - (p + j)" by (simp only: mod_eq_dvd_iff_nat)
  then have "n dvd k - j" by simp
  moreover have "k - j < n" using k by simp
  ultimately have "k - j = 0" by (meson dvd_imp_le not_less zero_less_iff_neq_zero)
  with le show ?thesis by simp
qed

lemma same_residue:
  fixes j k n p :: nat
  assumes "(p + j) mod n = (p + k) mod n" "j < n" "k < n"
  shows "j = k"
proof (cases "j \<le> k")
  case True
  with assms show ?thesis by (intro same_residue_le [of p j n k])
next
  case False
  then have "k \<le> j" by simp
  with assms have "k = j" by (intro same_residue_le [of p k n j]) simp_all
  then show ?thesis by simp
qed

lemma orderly_insert_loop:
  fixes seg parent_x :: "'a option list"
  assumes n: "0 < n"
    and seg: "distinct seg" "set seg \<subseteq> set parent_x"
    and par: "distinct parent_x" "None \<notin> set parent_x" "length parent_x = n"
  shows "\<lbrakk>distinct gs; set gs \<subseteq> set parent_x; set gs \<inter> set ys = {};
          distinct ys; set ys \<subseteq> set parent_x - set seg;
          length child = n;
          mset child = mset seg + mset ys + replicate_mset (n - length seg - length ys) None;
          \<forall>j. length ys \<le> j \<and> j < n - length seg \<longrightarrow> child ! ((point2 + j) mod n) = None\<rbrakk>
         \<Longrightarrow> \<exists>child'.
               fold (\<lambda>gene (child, p).
                       if gene \<notin> set child then (child[p mod length child := gene], p + 1)
                       else (child, p))
                 gs (child, point2 + length ys)
               = (child', point2 + length (ys @ filter (\<lambda>g. g \<notin> set seg) gs)) \<and>
               length child' = n \<and>
               mset child' = mset seg + mset (ys @ filter (\<lambda>g. g \<notin> set seg) gs)
                 + replicate_mset (n - length seg - length (ys @ filter (\<lambda>g. g \<notin> set seg) gs)) None"
proof (induction gs arbitrary: child ys)
  case Nil
  then show ?case by simp
next
  case (Cons g gs)
  let ?step = "\<lambda>gene (child, p).
                 if gene \<notin> set child then (child[p mod length child := gene], p + 1)
                 else (child, p)"
  from Cons.prems have g: "g \<in> set parent_x" "g \<notin> set ys" "g \<notin> set gs" and
    gs: "distinct gs" "set gs \<subseteq> set parent_x" "set gs \<inter> set ys = {}"
    by auto
  have gN: "g \<noteq> None"
  proof
    assume "g = None"
    with g(1) par(2) show False by simp
  qed
  have in_child: "g \<in> set child \<longleftrightarrow> g \<in> set seg"
  proof -
    have "g \<in> set child \<longleftrightarrow> g \<in># mset child" by simp
    also have "\<dots> \<longleftrightarrow> g \<in> set seg" using Cons.prems(7) g(2) gN by auto
    finally show ?thesis .
  qed
  show ?case
  proof (cases "g \<in> set seg")
    case True
    with in_child have "fold ?step (g # gs) (child, point2 + length ys)
                          = fold ?step gs (child, point2 + length ys)" by simp
    moreover have "filter (\<lambda>g. g \<notin> set seg) (g # gs) = filter (\<lambda>g. g \<notin> set seg) gs"
      using True by simp
    moreover note Cons.IH [OF gs Cons.prems(4,5,6,7,8)]
    ultimately show ?thesis by simp
  next
    case False
    let ?k = "length ys"
    let ?ys = "ys @ [g]"
    let ?i = "(point2 + ?k) mod n"
    have ys': "distinct ?ys" "set ?ys \<subseteq> set parent_x - set seg"
      using Cons.prems(4,5) g False by auto
    have "card (set ?ys) \<le> card (set parent_x - set seg)"
      using ys'(2) by (intro card_mono) auto
    moreover have "card (set parent_x - set seg) = n - length seg"
      using seg par by (simp add: card_Diff_subset distinct_card)
    moreover have "card (set ?ys) = ?k + 1" using ys'(1) distinct_card [of ?ys] by simp
    ultimately have k: "?k < n - length seg" by simp
    then have kn: "?k < n" by simp
    have i: "?i < length child" using n Cons.prems(6) by simp
    from Cons.prems(8) k have free: "child ! ?i = None" by simp
    let ?child = "child[?i := g]"
    have step: "?step g (child, point2 + ?k) = (?child, point2 + length ?ys)"
      using in_child False Cons.prems(6) by simp
    have len: "length ?child = n" using Cons.prems(6) by simp
    have "n - length seg - ?k = Suc (n - length seg - length ?ys)" using k by simp
    then have "mset child = mset seg + mset ys
                 + add_mset None (replicate_mset (n - length seg - length ?ys) None)"
      using Cons.prems(7) by simp
    then have ms: "mset ?child = mset seg + mset ?ys
                     + replicate_mset (n - length seg - length ?ys) None"
      using mset_update [OF i, of g] free by simp
    have rest: "\<forall>j. length ?ys \<le> j \<and> j < n - length seg \<longrightarrow> ?child ! ((point2 + j) mod n) = None"
    proof (intro allI impI)
      fix j assume j: "length ?ys \<le> j \<and> j < n - length seg"
      then have "j < n" "j \<noteq> ?k" by auto
      with same_residue [of point2 j n ?k] kn have "(point2 + j) mod n \<noteq> ?i" by blast
      moreover from j Cons.prems(8) have "child ! ((point2 + j) mod n) = None" by simp
      ultimately show "?child ! ((point2 + j) mod n) = None" by simp
    qed
    have gs': "set gs \<inter> set ?ys = {}" using gs(3) g(3) by auto
    from Cons.IH [OF gs(1,2) gs' ys' len ms rest]
    obtain child' where
      "fold ?step gs (?child, point2 + length ?ys)
         = (child', point2 + length (?ys @ filter (\<lambda>g. g \<notin> set seg) gs))"
      "length child' = n"
      "mset child' = mset seg + mset (?ys @ filter (\<lambda>g. g \<notin> set seg) gs)
         + replicate_mset (n - length seg - length (?ys @ filter (\<lambda>g. g \<notin> set seg) gs)) None"
      by blast
    moreover have "?ys @ filter (\<lambda>g. g \<notin> set seg) gs = ys @ filter (\<lambda>g. g \<notin> set seg) (g # gs)"
      using False by simp
    moreover have "fold ?step (g # gs) (child, point2 + ?k) = fold ?step gs (?child, point2 + length ?ys)"
      using step by simp
    ultimately show ?thesis by (intro exI [of _ child']) simp
  qed
qed

lemma same_cities_same_length:
  assumes "distinct xs" "distinct ys" "set xs = set ys"
  shows "length xs = length ys"
  using assms by (metis distinct_card)

lemma mset_rotate_eq: "mset (rotate k xs) = mset xs"
proof -
  let ?m = "k mod length xs"
  have "mset xs = mset (take ?m xs @ drop ?m xs)" by (simp only: append_take_drop_id)
  also have "\<dots> = mset (drop ?m xs @ take ?m xs)" by (simp only: mset_append add.commute)
  also have "\<dots> = mset (rotate k xs)" by (simp only: rotate_drop_take)
  finally show ?thesis by simp
qed

lemma nth_around_segment:
  assumes "length seg = p2 - p1" "p1 \<le> p2" "i < p1 \<or> (p2 \<le> i \<and> i < p2 + m)"
  shows "(replicate p1 x @ seg @ replicate m x) ! i = x"
proof (cases "i < p1")
  case True
  then show ?thesis by (simp add: nth_append)
next
  case False
  with assms(3) have i: "p2 \<le> i" "i < p2 + m" by simp_all
  with assms(2) have "\<not> i < p1" "\<not> i - p1 < length seg" "i - p1 - length seg < m"
    using assms(1) by simp_all
  then show ?thesis by (simp add: nth_append)
qed

lemma orderly_insert_loop_from_start:
  fixes seg parent_x :: "'a option list"
  assumes "0 < n" "distinct seg" "set seg \<subseteq> set parent_x"
    "distinct parent_x" "None \<notin> set parent_x" "length parent_x = n"
    "distinct gs" "set gs \<subseteq> set parent_x"
    "length child = n"
    "mset child = mset seg + replicate_mset (n - length seg) None"
    "\<forall>j. j < n - length seg \<longrightarrow> child ! ((point2 + j) mod n) = None"
  obtains child' where
    "fold (\<lambda>gene (child, p).
             if gene \<notin> set child then (child[p mod length child := gene], p + 1)
             else (child, p))
       gs (child, point2)
     = (child', point2 + length (filter (\<lambda>g. g \<notin> set seg) gs))"
    "mset child' = mset seg + mset (filter (\<lambda>g. g \<notin> set seg) gs)
       + replicate_mset (n - length seg - length (filter (\<lambda>g. g \<notin> set seg) gs)) None"
  using orderly_insert_loop [OF assms(1-8), of "[]" child point2] assms(9-11)
  by auto

lemma orderly_insert_permutes:
  fixes parent_x other :: "'a option list"
  assumes par: "distinct parent_x" "None \<notin> set parent_x"
    and other: "distinct other" "set other = set parent_x"
    and p: "p1 \<le> p2" "p2 < length parent_x"
  shows "mset (orderly_insert parent_x
                 (slice_assign p1 p2 (replicate (length parent_x) None) (slice p1 p2 other)) p2)
           = mset parent_x"
proof -
  let ?n = "length parent_x"
  let ?seg = "slice p1 p2 other"
  let ?child = "slice_assign p1 p2 (replicate ?n None) ?seg"
  let ?gs = "rotate p2 parent_x"
  let ?out = "filter (\<lambda>g. g \<notin> set ?seg) ?gs"
  let ?in = "filter (\<lambda>g. g \<in> set ?seg) ?gs"
  have n: "0 < ?n" using p by linarith
  have len_other: "length other = ?n"
    using same_cities_same_length [OF other(1) par(1) other(2)] .
  have seg: "distinct ?seg" "set ?seg \<subseteq> set parent_x" "length ?seg = p2 - p1"
    using other p len_other
    by (auto simp: slice_def dest: in_set_takeD in_set_dropD)
  have child_eq: "?child = replicate p1 None @ ?seg @ replicate (?n - p2) None"
    using p by (simp add: slice_assign_def)
  have len_child: "length ?child = ?n" using p seg(3) by (simp add: child_eq)
  have ms_child: "mset ?child = mset ?seg + replicate_mset (?n - length ?seg) None"
  proof -
    have "mset ?child = mset ?seg + mset (replicate p1 None @ replicate (?n - p2) None)"
      by (simp add: child_eq)
    also have "replicate p1 None @ replicate (?n - p2) None = replicate (p1 + (?n - p2)) (None :: 'a option)"
      by (simp add: replicate_add)
    also have "p1 + (?n - p2) = ?n - length ?seg" using p seg(3) by simp
    finally show ?thesis by simp
  qed
  have free: "\<forall>j. j < ?n - length ?seg \<longrightarrow> ?child ! ((p2 + j) mod ?n) = None"
  proof (intro allI impI)
    fix j assume "j < ?n - length ?seg"
    then have j: "j < ?n - (p2 - p1)" using seg(3) by simp
    show "?child ! ((p2 + j) mod ?n) = None"
    proof (cases "p2 + j < ?n")
      case True
      then have "(p2 + j) mod ?n = p2 + j" by simp
      moreover have "p2 + j < p1 \<or> (p2 \<le> p2 + j \<and> p2 + j < p2 + (?n - p2))"
        using True by arith
      then have "?child ! (p2 + j) = None"
        unfolding child_eq by (rule nth_around_segment [OF seg(3) p(1)])
      ultimately show ?thesis by simp
    next
      case False
      then have "(p2 + j) mod ?n = p2 + j - ?n" using j p by (simp add: le_mod_geq)
      moreover have "p2 + j - ?n < p1" using False j p by arith
      then have "p2 + j - ?n < p1 \<or> (p2 \<le> p2 + j - ?n \<and> p2 + j - ?n < p2 + (?n - p2))"
        by simp
      then have "?child ! (p2 + j - ?n) = None"
        unfolding child_eq by (rule nth_around_segment [OF seg(3) p(1)])
      ultimately show ?thesis by simp
    qed
  qed
  have gs: "distinct ?gs" "set ?gs \<subseteq> set parent_x"
    using par(1) by simp_all
  from n seg(1,2) par refl gs len_child ms_child free
  obtain child' where
    run: "fold (\<lambda>gene (child, p).
                  if gene \<notin> set child then (child[p mod length child := gene], p + 1)
                  else (child, p))
            ?gs (?child, p2)
          = (child', p2 + length ?out)" and
    ms: "mset child' = mset ?seg + mset ?out + replicate_mset (?n - length ?seg - length ?out) None"
    by (rule orderly_insert_loop_from_start)
  have "distinct ?in" using gs(1) by simp
  moreover have "set ?in = set ?seg" using seg(2) by auto
  ultimately have in_seg: "mset ?in = mset ?seg"
    using seg(1) set_eq_iff_mset_eq_distinct by blast
  then have "length ?in = length ?seg" by (rule mset_eq_length)
  moreover have "length ?in + length ?out = length ?gs" by (rule sum_length_filter_compl)
  ultimately have "?n - length ?seg - length ?out = 0" by simp
  with ms have "mset child' = mset ?seg + mset ?out" by simp
  also have "mset ?seg = mset ?in" by (rule in_seg [symmetric])
  also have "mset ?in + mset ?out = mset ?gs" by simp
  also have "\<dots> = mset parent_x" by (rule mset_rotate_eq)
  finally have "mset child' = mset parent_x" .
  moreover from run have "orderly_insert parent_x ?child p2 = child'"
    by (simp add: orderly_insert_def wrapped_read_is_rotate)
  ultimately show ?thesis by simp
qed

lemma order_crossover_permutes:
  fixes parent1 parent2 :: "'a option list"
  assumes p1: "distinct parent1" "None \<notin> set parent1"
    and p2: "distinct parent2" "set parent2 = set parent1"
    and pts: "valid_sample (length parent1) pts"
  shows "\<exists>c1 c2. order_crossover pts parent1 parent2 = Inr (c1, c2) \<and>
           mset c1 = mset parent1 \<and> mset c2 = mset parent1"
proof -
  obtain a b where ab: "pts = (a, b)" by (cases pts)
  from valid_sample_bounds [OF pts] ab
  have cut: "min a b \<le> max a b" "max a b < length parent1" and n: "\<not> length parent1 < 2"
    by simp_all
  have len: "length parent2 = length parent1"
    using same_cities_same_length [OF p2(1) p1(1) p2(2)] .
  have None2: "None \<notin> set parent2" using p1(2) p2(2) by simp
  have same: "mset parent2 = mset parent1"
    using p1(1) p2 set_eq_iff_mset_eq_distinct by blast
  note c1 = orderly_insert_permutes [OF p1 p2 cut]
  have cut': "max a b < length parent2" using cut(2) len by simp
  note c2 = orderly_insert_permutes [OF p2(1) None2 p1(1) p2(2) [symmetric] cut(1) cut']
  show ?thesis
    using n c1 c2 same by (simp add: order_crossover_def sample2_def ab Let_def)
qed

subsection \<open>Cycle crossover\<close>

lemma index_of_Some:
  "x \<in> set xs \<Longrightarrow> \<exists>k. index_of x xs = Some k \<and> k < length xs \<and> xs ! k = x"
proof (induction xs)
  case Nil
  then show ?case by simp
next
  case (Cons y ys)
  show ?case
  proof (cases "x = y")
    case True
    then show ?thesis by simp
  next
    case False
    with Cons.prems have "x \<in> set ys" by simp
    from Cons.IH [OF this] obtain k where "index_of x ys = Some k" "k < length ys" "ys ! k = x"
      by blast
    with False show ?thesis by simp
  qed
qed

lemma cycle_loop_closes:
  fixes A B :: "'a list"
  assumes len: "length A = n" "length B = n"
    and \<sigma>: "\<forall>i<n. \<sigma> i < n \<and> index_of (A ! i) B = Some (\<sigma> i)"
    and inj: "inj_on \<sigma> {..<n}"
    and distA: "distinct A"
  shows "\<lbrakk>V \<subseteq> {..<n}; i < n; i \<notin> V; \<sigma> ` V \<subseteq> insert i V; 0 \<in> insert i V; 0 \<notin> \<sigma> ` V;
          insert i V \<subseteq> insert 0 (\<sigma> ` V);
          length c1 = n; length c2 = n;
          \<forall>j<n. c1 ! j = (if j \<in> V then A ! j else e1 j) \<and>
                 c2 ! j = (if j \<in> V then B ! j else e2 j)\<rbrakk>
         \<Longrightarrow> \<exists>W c1' c2'.
               cycle_loop A B (A ! 0) i (A ! i) c1 c2 = Some (Inr (c1', c2')) \<and>
               W \<subseteq> {..<n} \<and> 0 \<in> W \<and> \<sigma> ` W \<subseteq> W \<and> length c1' = n \<and> length c2' = n \<and>
               (\<forall>j<n. c1' ! j = (if j \<in> W then A ! j else e1 j) \<and>
                      c2' ! j = (if j \<in> W then B ! j else e2 j))"
proof (induction "n - card V" arbitrary: V i c1 c2 rule: less_induct)
  case less
  let ?V = "insert i V"
  let ?c1 = "c1[i := A ! i]"
  let ?c2 = "c2[i := B ! i]"
  note V = \<open>V \<subseteq> {..<n}\<close> and i = \<open>i < n\<close> \<open>i \<notin> V\<close>
  from \<sigma> i(1) have si: "\<sigma> i < n" "index_of (A ! i) B = Some (\<sigma> i)" by simp_all
  have n0: "0 < n" using i(1) by simp
  have first: "A ! \<sigma> i = A ! 0 \<longleftrightarrow> \<sigma> i = 0"
    using distA si(1) n0 len(1) by (simp add: nth_eq_iff_index_eq)
  have V': "?V \<subseteq> {..<n}" using V i(1) by simp
  have shape: "\<forall>j<n. ?c1 ! j = (if j \<in> ?V then A ! j else e1 j) \<and>
                      ?c2 ! j = (if j \<in> ?V then B ! j else e2 j)"
  proof (intro allI impI)
    fix j assume j: "j < n"
    with less.prems(10) have "c1 ! j = (if j \<in> V then A ! j else e1 j)"
      "c2 ! j = (if j \<in> V then B ! j else e2 j)" by simp_all
    with j less.prems(8,9) show "?c1 ! j = (if j \<in> ?V then A ! j else e1 j) \<and>
                      ?c2 ! j = (if j \<in> ?V then B ! j else e2 j)"
      by (cases "j = i") simp_all
  qed
  have lens: "length ?c1 = n" "length ?c2 = n" using less.prems(8,9) by simp_all
  have unfold: "cycle_loop A B (A ! 0) i (A ! i) c1 c2 =
      (if \<sigma> i = 0 then Some (Inr (?c1, ?c2))
       else cycle_loop A B (A ! 0) (\<sigma> i) (A ! \<sigma> i) ?c1 ?c2)"
    using i(1) si len less.prems(8,9) first
    by (subst cycle_loop.simps) (simp add: Let_def)
  show ?case
  proof (cases "\<sigma> i = 0")
    case True
    have "\<sigma> ` ?V \<subseteq> ?V" using True less.prems(4,5) by auto
    with True unfold V' less.prems(5) lens shape show ?thesis
      by (intro exI [of _ ?V] exI [of _ ?c1] exI [of _ ?c2]) simp
  next
    case False
    have fin: "finite V" using V by (rule finite_subset) simp
    have "card ?V \<le> card {..<n}" using V' by (intro card_mono) simp_all
    then have "card V < n" using fin i(2) by simp
    then have dec: "n - card ?V < n - card V" using fin i(2) by simp
    have fresh: "\<sigma> i \<notin> ?V"
    proof
      assume "\<sigma> i \<in> ?V"
      with less.prems(7) False obtain v where v: "v \<in> V" "\<sigma> i = \<sigma> v" by auto
      with inj V i(1) have "i = v" by (auto dest: inj_onD)
      with v(1) i(2) show False by simp
    qed
    have p4: "\<sigma> ` ?V \<subseteq> insert (\<sigma> i) ?V" using less.prems(4) by auto
    have p5: "0 \<in> insert (\<sigma> i) ?V" using less.prems(5) by auto
    have p6: "0 \<notin> \<sigma> ` ?V" using less.prems(6) False by auto
    have p7: "insert (\<sigma> i) ?V \<subseteq> insert 0 (\<sigma> ` ?V)" using less.prems(7) by auto
    from less.hyps [OF dec V' si(1) fresh p4 p5 p6 p7 lens shape] unfold False
    show ?thesis by simp
  qed
qed

lemma cx_fill_chromosome_prefix:
  assumes "length chromosome = n" "length parent_x = n" "k \<le> n"
  shows "fold (\<lambda>i acc. case acc of
                      Inl e \<Rightarrow> Inl e
                    | Inr ch \<Rightarrow>
                        if ch ! i = None then
                          (if length parent_x \<le> i then Inl IndexError else Inr (ch[i := parent_x ! i]))
                        else Inr ch)
           [0 ..< k] (Inr chromosome)
         = Inr (map (\<lambda>j. if j < k \<and> chromosome ! j = None then parent_x ! j else chromosome ! j)
                  [0 ..< n])"
  using assms(3)
proof (induction k)
  case 0
  have "map ((!) chromosome) [0 ..< length chromosome] = chromosome" by (rule map_nth)
  with assms(1) show ?case by simp
next
  case (Suc k)
  let ?ch = "map (\<lambda>j. if j < k \<and> chromosome ! j = None then parent_x ! j else chromosome ! j) [0 ..< n]"
  let ?ch' = "map (\<lambda>j. if j < Suc k \<and> chromosome ! j = None then parent_x ! j else chromosome ! j) [0 ..< n]"
  from Suc.prems have k: "k < n" by simp
  then have at_k: "?ch ! k = chromosome ! k" by simp
  have upd: "?ch[k := parent_x ! k] = ?ch'" if "chromosome ! k = None"
  proof (rule nth_equalityI)
    show "length (?ch[k := parent_x ! k]) = length ?ch'" by simp
  next
    fix i assume "i < length (?ch[k := parent_x ! k])"
    then have i: "i < n" by simp
    show "?ch[k := parent_x ! k] ! i = ?ch' ! i"
    proof (cases "i = k")
      case True
      with k that show ?thesis by simp
    next
      case False
      with i show ?thesis by (auto simp: less_Suc_eq)
    qed
  qed
  have same: "chromosome ! k \<noteq> None \<Longrightarrow> ?ch = ?ch'"
    by (rule nth_equalityI) (auto simp: less_Suc_eq)
  from Suc.IH k show ?case
    using at_k upd same assms(2) by (auto simp del: map_eq_conv)
qed

lemma cx_fill_chromosome_result:
  assumes "length chromosome = n" "length parent_x = n"
  shows "cx_fill_chromosome chromosome parent_x
         = Inr (map (\<lambda>j. if chromosome ! j = None then parent_x ! j else chromosome ! j) [0 ..< n])"
proof -
  have "map (\<lambda>j. if j < n \<and> chromosome ! j = None then parent_x ! j else chromosome ! j) [0 ..< n]
        = map (\<lambda>j. if chromosome ! j = None then parent_x ! j else chromosome ! j) [0 ..< n]"
    by (rule map_cong) simp_all
  with cx_fill_chromosome_prefix [OF assms le_refl] show ?thesis
    by (simp add: cx_fill_chromosome_def assms(1))
qed

lemma same_cities_permutation:
  assumes "distinct xs" "distinct ys" "set xs \<subseteq> set ys" "length xs = length ys"
  shows "mset xs = mset ys"
proof -
  have "card (set xs) = card (set ys)" using assms(1,2,4) by (simp add: distinct_card)
  with assms(3) have "set xs = set ys" by (intro card_subset_eq) simp_all
  with assms(1,2) show ?thesis using set_eq_iff_mset_eq_distinct by blast
qed

text \<open>
  A child that takes, position by position, the gene of one of two parents is a
  permutation of the cities when the choice never takes the same gene twice.
\<close>

lemma mixed_child_permutation:
  fixes parent1 parent2 :: "'a list"
  assumes p1: "distinct parent1" "length parent1 = n"
    and p2: "distinct parent2" "length parent2 = n" "set parent2 = set parent1"
    and cross: "\<And>a b. a \<in> W \<Longrightarrow> b \<notin> W \<Longrightarrow> a < n \<Longrightarrow> b < n \<Longrightarrow> parent1 ! a \<noteq> parent2 ! b"
  shows "mset (map (\<lambda>j. if j \<in> W then parent1 ! j else parent2 ! j) [0 ..< n]) = mset parent1"
proof (rule same_cities_permutation)
  let ?f = "\<lambda>j. if j \<in> W then parent1 ! j else parent2 ! j"
  show "distinct parent1" by (rule p1(1))
  show "length (map ?f [0 ..< n]) = length parent1" using p1(2) by simp
  show "set (map ?f [0 ..< n]) \<subseteq> set parent1"
  proof
    fix x assume "x \<in> set (map ?f [0 ..< n])"
    then obtain j where j: "j < n" "x = ?f j" by auto
    show "x \<in> set parent1"
    proof (cases "j \<in> W")
      case True
      with j p1(2) show ?thesis by simp
    next
      case False
      with j p2(2) have "x \<in> set parent2" by simp
      with p2(3) show ?thesis by simp
    qed
  qed
  have "inj_on ?f (set [0 ..< n])"
  proof (rule inj_onI)
    fix j k assume jk: "j \<in> set [0 ..< n]" "k \<in> set [0 ..< n]" "?f j = ?f k"
    then have lt: "j < n" "k < n" by simp_all
    show "j = k"
    proof (cases "j \<in> W")
      case jW: True
      show ?thesis
      proof (cases "k \<in> W")
        case True
        with jW jk(3) have "parent1 ! j = parent1 ! k" by simp
        with lt p1 show ?thesis by (simp add: nth_eq_iff_index_eq)
      next
        case False
        with jW jk(3) have "parent1 ! j = parent2 ! k" by simp
        with cross [OF jW False lt] show ?thesis by simp
      qed
    next
      case jW: False
      show ?thesis
      proof (cases "k \<in> W")
        case True
        with jW jk(3) have "parent1 ! k = parent2 ! j" by simp
        with cross [OF True jW lt(2,1)] show ?thesis by simp
      next
        case False
        with jW jk(3) have "parent2 ! j = parent2 ! k" by simp
        with lt p2 show ?thesis by (simp add: nth_eq_iff_index_eq)
      qed
    qed
  qed
  then show "distinct (map ?f [0 ..< n])" by (simp add: distinct_map)
qed

lemma cycle_crossover_permutes:
  fixes parent1 parent2 :: "'a option list"
  assumes p1: "distinct parent1" "None \<notin> set parent1" "parent1 \<noteq> []"
    and p2: "distinct parent2" "set parent2 = set parent1"
  shows "\<exists>c1 c2. cycle_crossover parent1 parent2 = Some (Inr (c1, c2)) \<and>
           mset c1 = mset parent1 \<and> mset c2 = mset parent1"
proof -
  define n where "n = length parent1"
  have len: "length parent1 = n" "length parent2 = n"
    using same_cities_same_length [OF p2(1) p1(1) p2(2)] by (simp_all add: n_def)
  have n0: "0 < n" using p1(3) by (simp add: n_def)
  define \<sigma> where "\<sigma> i = the (index_of (parent1 ! i) parent2)" for i
  have sig: "\<sigma> i < n \<and> index_of (parent1 ! i) parent2 = Some (\<sigma> i) \<and> parent2 ! \<sigma> i = parent1 ! i"
    if "i < n" for i
  proof -
    from that len have "parent1 ! i \<in> set parent2" using p2(2) by simp
    from index_of_Some [OF this] obtain k where
      "index_of (parent1 ! i) parent2 = Some k" "k < length parent2" "parent2 ! k = parent1 ! i"
      by blast
    then show ?thesis using len by (simp add: \<sigma>_def)
  qed
  have inj: "inj_on \<sigma> {..<n}"
  proof (rule inj_onI)
    fix i j assume ij: "i \<in> {..<n}" "j \<in> {..<n}" "\<sigma> i = \<sigma> j"
    then have "parent1 ! i = parent1 ! j" using sig [of i] sig [of j] by simp
    with ij p1(1) len show "i = j" by (simp add: nth_eq_iff_index_eq)
  qed
  have sig': "\<forall>i<n. \<sigma> i < n \<and> index_of (parent1 ! i) parent2 = Some (\<sigma> i)"
    using sig by simp
  have "\<exists>W c1 c2.
          cycle_loop parent1 parent2 (parent1 ! 0) 0 (parent1 ! 0) (replicate n None) (replicate n None)
            = Some (Inr (c1, c2)) \<and>
          W \<subseteq> {..<n} \<and> 0 \<in> W \<and> \<sigma> ` W \<subseteq> W \<and> length c1 = n \<and> length c2 = n \<and>
          (\<forall>j<n. c1 ! j = (if j \<in> W then parent1 ! j else None) \<and>
                 c2 ! j = (if j \<in> W then parent2 ! j else None))"
  proof (rule cycle_loop_closes [OF len sig' inj p1(1)])
    show "{} \<subseteq> {..<n}" "0 < n" "0 \<notin> {}" "\<sigma> ` {} \<subseteq> insert 0 {}" "0 \<in> insert 0 {}"
      "0 \<notin> \<sigma> ` {}" "insert 0 {} \<subseteq> insert 0 (\<sigma> ` {})"
      "length (replicate n None) = n" "length (replicate n None) = n"
      using n0 by simp_all
    show "\<forall>j<n. replicate n None ! j = (if j \<in> {} then parent1 ! j else None) \<and>
                 replicate n None ! j = (if j \<in> {} then parent2 ! j else None)"
      by simp
  qed
  then obtain W c1 c2 where
    loop: "cycle_loop parent1 parent2 (parent1 ! 0) 0 (parent1 ! 0) (replicate n None) (replicate n None)
             = Some (Inr (c1, c2))" and
    W: "W \<subseteq> {..<n}" "\<sigma> ` W \<subseteq> W" and
    lens: "length c1 = n" "length c2 = n" and
    shape: "\<forall>j<n. c1 ! j = (if j \<in> W then parent1 ! j else None) \<and>
                   c2 ! j = (if j \<in> W then parent2 ! j else None)"
    by (elim exE conjE)
  let ?f1 = "\<lambda>j. if j \<in> W then parent1 ! j else parent2 ! j"
  let ?f2 = "\<lambda>j. if j \<in> W then parent2 ! j else parent1 ! j"
  have None2: "None \<notin> set parent2" using p1(2) p2(2) by simp
  have some1: "parent1 ! j \<noteq> None" if "j < n" for j
  proof
    assume "parent1 ! j = None"
    moreover have "parent1 ! j \<in> set parent1" using that len by simp
    ultimately show False using p1(2) by simp
  qed
  have some2: "parent2 ! j \<noteq> None" if "j < n" for j
  proof
    assume "parent2 ! j = None"
    moreover have "parent2 ! j \<in> set parent2" using that len by simp
    ultimately show False using None2 by simp
  qed
  have fill1: "cx_fill_chromosome c1 parent2 = Inr (map ?f1 [0 ..< n])"
  proof -
    have "(if c1 ! j = None then parent2 ! j else c1 ! j) = ?f1 j" if "j \<in> set [0 ..< n]" for j
    proof -
      from that have j: "j < n" by simp
      with shape have c: "c1 ! j = (if j \<in> W then parent1 ! j else None)" by simp
      show ?thesis
      proof (cases "j \<in> W")
        case True
        with c have "c1 ! j = parent1 ! j" by simp
        with some1 [OF j] True show ?thesis by (simp del: not_None_eq)
      next
        case False
        with c show ?thesis by simp
      qed
    qed
    then have "map (\<lambda>j. if c1 ! j = None then parent2 ! j else c1 ! j) [0 ..< n] = map ?f1 [0 ..< n]"
      by (intro map_cong) simp_all
    with cx_fill_chromosome_result [OF lens(1) len(2)] show ?thesis by simp
  qed
  have fill2: "cx_fill_chromosome c2 parent1 = Inr (map ?f2 [0 ..< n])"
  proof -
    have "(if c2 ! j = None then parent1 ! j else c2 ! j) = ?f2 j" if "j \<in> set [0 ..< n]" for j
    proof -
      from that have j: "j < n" by simp
      with shape have c: "c2 ! j = (if j \<in> W then parent2 ! j else None)" by simp
      show ?thesis
      proof (cases "j \<in> W")
        case True
        with c have "c2 ! j = parent2 ! j" by simp
        with some2 [OF j] True show ?thesis by (simp del: not_None_eq)
      next
        case False
        with c show ?thesis by simp
      qed
    qed
    then have "map (\<lambda>j. if c2 ! j = None then parent1 ! j else c2 ! j) [0 ..< n] = map ?f2 [0 ..< n]"
      by (intro map_cong) simp_all
    with cx_fill_chromosome_result [OF lens(2) len(1)] show ?thesis by simp
  qed
  have result: "cycle_crossover parent1 parent2 = Some (Inr (map ?f1 [0 ..< n], map ?f2 [0 ..< n]))"
    using p1(3) loop fill1 fill2 by (simp add: cycle_crossover_def Let_def n_def [symmetric])
  have finW: "finite W" using W(1) by (rule finite_subset) simp
  have injW: "inj_on \<sigma> W" using inj W(1) by (rule inj_on_subset)
  have closed: "\<sigma> ` W = W" using finW W(2) injW by (rule endo_inj_surj)
  have cross1: "parent1 ! a \<noteq> parent2 ! b" if "a \<in> W" "b \<notin> W" "a < n" "b < n" for a b
  proof
    assume "parent1 ! a = parent2 ! b"
    with that sig [of a] have "parent2 ! \<sigma> a = parent2 ! b" "\<sigma> a < n" by simp_all
    with p2(1) len that(4) have "\<sigma> a = b" by (simp add: nth_eq_iff_index_eq)
    moreover have "\<sigma> a \<in> W" using that(1) W(2) by blast
    ultimately show False using that(2) by simp
  qed
  have cross2: "parent2 ! a \<noteq> parent1 ! b" if "a \<in> W" "b \<notin> W" "a < n" "b < n" for a b
  proof
    assume eq: "parent2 ! a = parent1 ! b"
    from that(1) closed obtain w where w: "w \<in> W" "a = \<sigma> w" by blast
    with W(1) have wn: "w < n" by blast
    from eq that sig [of b] have "parent2 ! \<sigma> b = parent2 ! a" "\<sigma> b < n" by simp_all
    with p2(1) len that(3) have "\<sigma> b = a" by (simp add: nth_eq_iff_index_eq)
    with w(2) have "\<sigma> b = \<sigma> w" by simp
    with inj wn that(4) have "b = w" by (simp add: inj_on_def)
    with w(1) that(2) show False by simp
  qed
  have m1: "mset (map ?f1 [0 ..< n]) = mset parent1"
    using p1(1) len(1) p2(1) len(2) p2(2) cross1 by (rule mixed_child_permutation)
  have "mset (map ?f2 [0 ..< n]) = mset parent2"
    using p2(1) len(2) p1(1) len(1) p2(2) [symmetric] cross2 by (rule mixed_child_permutation)
  also have "\<dots> = mset parent1"
    using p1(1) p2 set_eq_iff_mset_eq_distinct by blast
  finally have m2: "mset (map ?f2 [0 ..< n]) = mset parent1" .
  from result m1 m2 show ?thesis by (intro exI conjI)
qed

subsection \<open>Partially-mapped crossover\<close>

lemma find_holds:
  "find P xs = Some x \<Longrightarrow> P x"
  by (induction xs) (auto split: if_splits)

lemma find_swapped:
  "find P (map prod.swap xs) = map_option prod.swap (find (\<lambda>x. P (prod.swap x)) xs)"
  by (induction xs) simp_all

lemma remove1_swapped:
  "remove1 (prod.swap x) (map prod.swap xs) = map prod.swap (remove1 x xs)"
proof (induction xs)
  case Nil
  show ?case by simp
next
  case (Cons y ys)
  then show ?case by (cases x; cases y) auto
qed

text \<open>The search for a counterpart does not depend on which parent the pairs name first.\<close>

lemma get_gene_counterpart_swapped:
  "get_gene_counterpart gene (map prod.swap mappings) = get_gene_counterpart gene mappings"
proof (induction "length mappings" arbitrary: gene mappings rule: less_induct)
  case less
  let ?P = "\<lambda>mv. gene = fst mv \<or> gene = snd mv"
  have same: "find (\<lambda>x. ?P (prod.swap x)) mappings = find ?P mappings"
    by (rule find_cong) auto
  show ?case
  proof (cases "find ?P mappings")
    case None
    with same show ?thesis
      by (subst get_gene_counterpart.simps, subst (2) get_gene_counterpart.simps)
         (simp add: find_swapped)
  next
    case (Some mv)
    have next_gene: "(if fst (prod.swap mv) \<noteq> gene then fst (prod.swap mv) else snd (prod.swap mv))
                     = (if fst mv \<noteq> gene then fst mv else snd mv)"
      using find_holds [OF Some] by auto
    from less [OF length_remove1_found [OF Some]]
    have "get_gene_counterpart (if fst mv \<noteq> gene then fst mv else snd mv)
            (map prod.swap (remove1 mv mappings))
          = get_gene_counterpart (if fst mv \<noteq> gene then fst mv else snd mv) (remove1 mv mappings)" .
    with Some same next_gene show ?thesis
      by (subst get_gene_counterpart.simps, subst (2) get_gene_counterpart.simps)
         (simp add: find_swapped remove1_swapped)
  qed
qed

text \<open>
  From a gene that is no first component, the search walks from second to first
  components and ends at a gene that is no second component.
\<close>

lemma get_gene_counterpart_chain:
  "\<lbrakk>distinct (map fst m); g \<notin> fst ` set m; set m \<subseteq> M; get_gene_counterpart g m = Some r\<rbrakk>
   \<Longrightarrow> (g, r) \<in> (M\<inverse>)\<^sup>* \<and> r \<notin> snd ` set m \<and>
       (if g \<in> snd ` set m then r \<in> fst ` set m else r = g)"
proof (induction "length m" arbitrary: g m rule: less_induct)
  case less
  let ?P = "\<lambda>mv. g = fst mv \<or> g = snd mv"
  show ?case
  proof (cases "find ?P m")
    case None
    with less.prems(4) have r: "r = g" by (subst (asm) get_gene_counterpart.simps) simp
    have "g \<notin> snd ` set m"
    proof
      assume "g \<in> snd ` set m"
      then obtain a where "(a, g) \<in> set m" by auto
      with None show False by (auto simp: find_None_iff)
    qed
    with r show ?thesis by simp
  next
    case (Some mv)
    let ?g = "fst mv" and ?m = "remove1 mv m"
    from find_mapping_in_set [OF Some] have mv: "mv \<in> set m" .
    with less.prems(2) have ne: "fst mv \<noteq> g" by auto
    with find_holds [OF Some] have g: "g = snd mv" by simp
    from Some ne less.prems(4) have run: "get_gene_counterpart ?g ?m = Some r"
      by (subst (asm) get_gene_counterpart.simps) simp
    from less.prems(1) have dm: "distinct m" and inj: "inj_on fst (set m)"
      by (simp_all add: distinct_map)
    have d': "distinct (map fst ?m)"
      using dm inj by (auto simp: distinct_map intro: inj_on_subset)
    have out: "?g \<notin> fst ` set ?m"
    proof
      assume "?g \<in> fst ` set ?m"
      then obtain q where q: "q \<in> set ?m" "fst q = fst mv" by auto
      with dm have "q \<in> set m" "q \<noteq> mv" by simp_all
      with inj mv q(2) show False by (auto dest: inj_onD)
    qed
    have sub: "set ?m \<subseteq> M" using less.prems(3) set_remove1_subset [of mv m] by blast
    from less.hyps [OF length_remove1_found [OF Some] d' out sub run]
    have ih: "(?g, r) \<in> (M\<inverse>)\<^sup>*" "r \<notin> snd ` set ?m"
      "if ?g \<in> snd ` set ?m then r \<in> fst ` set ?m else r = ?g" by simp_all
    have "(g, ?g) \<in> M\<inverse>" using mv less.prems(3) g by (cases mv) auto
    then have path: "(g, r) \<in> (M\<inverse>)\<^sup>*" using ih(1) by (rule converse_rtrancl_into_rtrancl)
    have rf: "r \<in> fst ` set m"
    proof (cases "?g \<in> snd ` set ?m")
      case True
      with ih(3) have "r \<in> fst ` set ?m" by simp
      then show ?thesis using set_remove1_subset [of mv m] by blast
    next
      case False
      with ih(3) mv show ?thesis by simp
    qed
    with less.prems(2) have "r \<noteq> g" by auto
    have "snd ` set m \<subseteq> insert (snd mv) (snd ` set ?m)"
      using dm by auto
    with ih(2) \<open>r \<noteq> g\<close> g have "r \<notin> snd ` set m" by auto
    moreover have "g \<in> snd ` set m" using mv g by auto
    ultimately show ?thesis using path rf by simp
  qed
qed

lemma chain_origin_unique:
  assumes inj: "\<And>x y z. (x, z) \<in> R \<Longrightarrow> (y, z) \<in> R \<Longrightarrow> x = y"
    and p1: "(g1, r) \<in> R\<^sup>*" and g1: "g1 \<notin> Range R"
  shows "(g2, r) \<in> R\<^sup>* \<Longrightarrow> g2 \<notin> Range R \<Longrightarrow> g1 = g2"
  using p1
proof (induction arbitrary: g2 rule: rtrancl_induct)
  case base
  from base(1) show ?case
  proof (cases rule: rtranclE)
    case base
    then show ?thesis by simp
  next
    case (step y)
    with g1 show ?thesis by auto
  qed
next
  case (step y z)
  from step.prems(1) show ?case
  proof (cases rule: rtranclE)
    case base
    with step.hyps(2) step.prems(2) show ?thesis by auto
  next
    case (step y')
    from inj [OF step(2) \<open>(y, z) \<in> R\<close>] have "y' = y" .
    with step(1) have "(g2, y) \<in> R\<^sup>*" by simp
    from \<open>\<And>g2. (g2, y) \<in> R\<^sup>* \<Longrightarrow> g2 \<notin> Range R \<Longrightarrow> g1 = g2\<close> [OF this step.prems(2)]
    show ?thesis .
  qed
qed

lemma slice_nth_set:
  assumes "p1 \<le> p2" "p2 \<le> length xs"
  shows "set (slice p1 p2 xs) = {xs ! i | i. p1 \<le> i \<and> i < p2}"
proof -
  have len: "length (slice p1 p2 xs) = p2 - p1" using assms by (simp add: slice_def)
  have nth: "slice p1 p2 xs ! i = xs ! (p1 + i)" if "i < p2 - p1" for i
    using that assms by (simp add: slice_def)
  show ?thesis
  proof (intro set_eqI iffI)
    fix x assume "x \<in> set (slice p1 p2 xs)"
    then obtain i where "i < p2 - p1" "x = slice p1 p2 xs ! i"
      using len by (auto simp: in_set_conv_nth)
    with nth have "x = xs ! (p1 + i)" "p1 \<le> p1 + i" "p1 + i < p2" by simp_all
    then show "x \<in> {xs ! i | i. p1 \<le> i \<and> i < p2}" by blast
  next
    fix x assume "x \<in> {xs ! i | i. p1 \<le> i \<and> i < p2}"
    then obtain i where i: "p1 \<le> i" "i < p2" "x = xs ! i" by blast
    then have "i - p1 < p2 - p1" "x = slice p1 p2 xs ! (i - p1)" using nth [of "i - p1"] by simp_all
    moreover have "slice p1 p2 xs ! (i - p1) \<in> set (slice p1 p2 xs)"
      using \<open>i - p1 < p2 - p1\<close> len by (intro nth_mem) simp
    ultimately show "x \<in> set (slice p1 p2 xs)" by simp
  qed
qed

lemma pmx_fill_prefix:
  fixes X :: "'a option list" and p1 p2 :: nat and m :: "('a option \<times> 'a option) list"
  fixes step
  defines "step \<equiv> \<lambda>i acc. and_then acc (\<lambda>ch.
             if i < p1 \<or> p2 \<le> i then
               (let gene = X ! i in
                if gene \<notin> set ch then
                  (if length ch \<le> i then Some (Inl IndexError) else Some (Inr (ch[i := gene])))
                else
                  (case get_gene_counterpart gene m of
                     None \<Rightarrow> None
                   | Some g \<Rightarrow>
                       if length ch \<le> i then Some (Inl IndexError) else Some (Inr (ch[i := g]))))
             else Some (Inr ch))"
  assumes len: "length X = n" "length ch0 = n"
    and cut: "p1 \<le> p2" "p2 \<le> n"
    and ch0: "\<forall>j<n. ch0 ! j = (if p1 \<le> j \<and> j < p2 then S j else None)"
    and X: "distinct X" "None \<notin> set X"
    and seg: "\<And>x. x \<in> segment \<longleftrightarrow> (\<exists>i. p1 \<le> i \<and> i < p2 \<and> x = S i)"
    and F: "\<And>j. j < n \<Longrightarrow> j < p1 \<or> p2 \<le> j \<Longrightarrow>
              get_gene_counterpart (X ! j) m = Some (F (X ! j))"
    and Fin: "\<And>j i. j < n \<Longrightarrow> j < p1 \<or> p2 \<le> j \<Longrightarrow> X ! j \<in> segment \<Longrightarrow>
              i < n \<Longrightarrow> i < p1 \<or> p2 \<le> i \<Longrightarrow> F (X ! j) \<noteq> X ! i"
    and Fout: "\<And>j. j < n \<Longrightarrow> j < p1 \<or> p2 \<le> j \<Longrightarrow> X ! j \<notin> segment \<Longrightarrow>
              F (X ! j) = X ! j"
    and k: "k \<le> n"
  shows "fold step [0 ..< k] (Some (Inr ch0))
         = Some (Inr (map (\<lambda>j. if j < k \<and> (j < p1 \<or> p2 \<le> j) then F (X ! j) else ch0 ! j) [0 ..< n]))"
  using k
proof (induction k)
  case 0
  have "map ((!) ch0) [0 ..< length ch0] = ch0" by (rule map_nth)
  with len(2) show ?case by simp
next
  case (Suc k)
  let ?ch = "map (\<lambda>j. if j < k \<and> (j < p1 \<or> p2 \<le> j) then F (X ! j) else ch0 ! j) [0 ..< n]"
  let ?ch' = "map (\<lambda>j. if j < Suc k \<and> (j < p1 \<or> p2 \<le> j) then F (X ! j) else ch0 ! j) [0 ..< n]"
  from Suc.prems have k: "k < n" by simp
  have lench: "length ?ch = n" by simp
  show ?case
  proof (cases "k < p1 \<or> p2 \<le> k")
    case False
    have "?ch = ?ch'"
    proof (rule nth_equalityI)
      show "length ?ch = length ?ch'" by simp
    next
      fix i assume "i < length ?ch"
      then have "i < n" by simp
      then show "?ch ! i = ?ch' ! i" using False by (cases "i = k") (auto simp: less_Suc_eq)
    qed
    moreover have "step k (Some (Inr ?ch)) = Some (Inr ?ch)"
      using False by (simp add: step_def)
    ultimately show ?thesis using Suc.IH k by simp
  next
    case True
    let ?gene = "X ! k"
    note gc = F [OF k True]
    have geneN: "?gene \<noteq> None"
    proof
      assume "?gene = None"
      moreover have "?gene \<in> set X" using k len(1) by simp
      ultimately show False using X(2) by simp
    qed
    have in_child: "?gene \<in> set ?ch \<longleftrightarrow> ?gene \<in> segment"
    proof
      assume "?gene \<in> set ?ch"
      then obtain j where "j < length ?ch" "?ch ! j = ?gene"
        unfolding in_set_conv_nth by blast
      then have j: "j < n" "?gene = ?ch ! j" by simp_all
      show "?gene \<in> segment"
      proof (cases "j < k \<and> (j < p1 \<or> p2 \<le> j)")
        case outside: True
        with j have eq: "?gene = F (X ! j)" by simp
        from outside have oj: "j < p1 \<or> p2 \<le> j" by simp
        show ?thesis
        proof (cases "X ! j \<in> segment")
          case True
          from Fin [OF j(1) oj True k \<open>k < p1 \<or> p2 \<le> k\<close>] eq show ?thesis by simp
        next
          case False
          from Fout [OF j(1) oj False] eq have "X ! k = X ! j" by simp
          with X(1) len(1) k j(1) have "k = j" by (simp add: nth_eq_iff_index_eq)
          with outside show ?thesis by simp
        qed
      next
        case False
        with j have eq: "?gene = ch0 ! j" by simp
        with ch0 j(1) geneN have "p1 \<le> j \<and> j < p2" "?gene = S j"
          by (auto split: if_splits)
        with seg show ?thesis by blast
      qed
    next
      assume "?gene \<in> segment"
      with seg obtain i where i: "p1 \<le> i" "i < p2" "?gene = S i" by blast
      with cut have "i < n" by simp
      with i ch0 have "?ch ! i = ?gene" by simp
      moreover have "?ch ! i \<in> set ?ch" using \<open>i < n\<close> by (intro nth_mem) simp
      ultimately show "?gene \<in> set ?ch" by simp
    qed
    have upd: "?ch[k := F ?gene] = ?ch'"
    proof (rule nth_equalityI)
      show "length (?ch[k := F ?gene]) = length ?ch'" by simp
    next
      fix i assume "i < length (?ch[k := F ?gene])"
      then have i: "i < n" by simp
      show "?ch[k := F ?gene] ! i = ?ch' ! i"
      proof (cases "i = k")
        case eq: True
        with k True show ?thesis by simp
      next
        case False
        with i show ?thesis by (auto simp: less_Suc_eq)
      qed
    qed
    have step: "step k (Some (Inr ?ch)) = Some (Inr ?ch')"
    proof (cases "?gene \<in> set ?ch")
      case in_ch: True
      have "step k (Some (Inr ?ch)) = Some (Inr (?ch[k := F ?gene]))"
        unfolding step_def using True in_ch gc k by (simp add: Let_def del: set_map set_upt)
      with upd show ?thesis by simp
    next
      case False
      with in_child have "?gene \<notin> segment" by simp
      from Fout [OF k True this] have same: "F ?gene = ?gene" .
      have "step k (Some (Inr ?ch)) = Some (Inr (?ch[k := ?gene]))"
        unfolding step_def using True False k by (simp add: Let_def del: set_map set_upt)
      with upd same show ?thesis by simp
    qed
    from Suc.IH k step show ?thesis by simp
  qed
qed

lemma zip_swapped: "zip xs ys = map prod.swap (zip ys xs)"
proof (induction xs arbitrary: ys)
  case Nil
  show ?case by simp
next
  case (Cons x xs)
  then show ?case by (cases ys) simp_all
qed

lemma pmx_fill_chromosome_swapped:
  "pmx_fill_chromosome p1 p2 (map prod.swap mappings) chromosome parent_x
   = pmx_fill_chromosome p1 p2 mappings chromosome parent_x"
  by (simp only: pmx_fill_chromosome_def get_gene_counterpart_swapped)

lemma pmx_fill_permutes:
  fixes X Y :: "'a option list"
  assumes X: "distinct X" "None \<notin> set X"
    and Y: "distinct Y" "set Y = set X"
    and cut: "p1 \<le> p2" "p2 \<le> length X"
  shows "\<exists>c. pmx_fill_chromosome p1 p2 (zip (slice p1 p2 X) (slice p1 p2 Y))
                (slice_assign p1 p2 (replicate (length X) None) (slice p1 p2 Y)) X = Some (Inr c) \<and>
             mset c = mset X"
proof -
  define n where "n = length X"
  define xs where "xs = slice p1 p2 X"
  define ys where "ys = slice p1 p2 Y"
  define m where "m = zip xs ys"
  define ch0 where "ch0 = slice_assign p1 p2 (replicate n None) ys"
  define F where "F g = the (get_gene_counterpart g m)" for g
  have len: "length X = n" "length Y = n"
    using same_cities_same_length [OF Y(1) X(1) Y(2)] by (simp_all add: n_def)
  have cutn: "p2 \<le> n" using cut(2) by (simp add: n_def)
  have lens: "length xs = p2 - p1" "length ys = p2 - p1"
    using cutn len by (simp_all add: xs_def ys_def slice_def)
  have fst_m: "map fst m = xs" and snd_m: "map snd m = ys"
    using lens by (simp_all add: m_def)
  have set_fst: "fst ` set m = set xs" using fst_m by (metis set_map)
  have set_snd: "snd ` set m = set ys" using snd_m by (metis set_map)
  have dxs: "distinct (map fst m)"
    unfolding fst_m xs_def slice_def using X(1) by simp
  have xs_set: "set xs = {X ! i | i. p1 \<le> i \<and> i < p2}"
    unfolding xs_def using cut(1) cutn len(1) by (intro slice_nth_set) simp_all
  have ys_set: "set ys = {Y ! i | i. p1 \<le> i \<and> i < p2}"
    unfolding ys_def using cut(1) cutn len(2) by (intro slice_nth_set) simp_all
  have seg: "x \<in> set ys \<longleftrightarrow> (\<exists>i. p1 \<le> i \<and> i < p2 \<and> x = Y ! i)" for x
    unfolding ys_set by blast
  have ch0_eq: "ch0 = replicate p1 None @ ys @ replicate (n - p2) None"
    using cut(1) cutn by (simp add: ch0_def slice_assign_def)
  have len0: "length ch0 = n" using cut(1) cutn lens by (simp add: ch0_eq)
  have ch0: "\<forall>j<n. ch0 ! j = (if p1 \<le> j \<and> j < p2 then Y ! j else None)"
  proof (intro allI impI)
    fix j assume j: "j < n"
    show "ch0 ! j = (if p1 \<le> j \<and> j < p2 then Y ! j else None)"
    proof (cases "p1 \<le> j \<and> j < p2")
      case True
      then have "\<not> j < p1" "j - p1 < length ys" using lens by auto
      then have "ch0 ! j = ys ! (j - p1)" by (simp add: ch0_eq nth_append)
      also have "\<dots> = Y ! j"
      proof -
        from True have "j - p1 < p2 - p1" "p1 + (j - p1) = j" by auto
        moreover have "p1 + (j - p1) \<le> length Y" using True cutn len(2) by simp
        ultimately show ?thesis by (simp add: ys_def slice_def)
      qed
      finally show ?thesis using True by simp
    next
      case False
      with j have "j < p1 \<or> (p2 \<le> j \<and> j < p2 + (n - p2))" by auto
      from nth_around_segment [OF lens(2) cut(1) this, of None]
      have "ch0 ! j = None" by (simp only: ch0_eq)
      with False show ?thesis by auto
    qed
  qed
  have outside: "X ! j \<notin> set xs" if "j < n" "j < p1 \<or> p2 \<le> j" for j
  proof
    assume "X ! j \<in> set xs"
    then obtain i where i: "p1 \<le> i" "i < p2" "X ! j = X ! i" unfolding xs_set by blast
    with cutn have "i < n" by simp
    with i(3) that(1) X(1) len(1) have "j = i" by (simp add: nth_eq_iff_index_eq)
    with i that(2) show False by simp
  qed
  have chain: "get_gene_counterpart (X ! j) m = Some (F (X ! j)) \<and>
               (X ! j, F (X ! j)) \<in> ((set m)\<inverse>)\<^sup>* \<and> F (X ! j) \<notin> set ys \<and>
               (if X ! j \<in> set ys then F (X ! j) \<in> set xs else F (X ! j) = X ! j)"
    if "j < n" "j < p1 \<or> p2 \<le> j" for j
  proof -
    from get_gene_counterpart_returns [of "X ! j" m]
    obtain r where r: "get_gene_counterpart (X ! j) m = Some r" by blast
    then have Fr: "F (X ! j) = r" by (simp add: F_def)
    from outside [OF that] have "X ! j \<notin> fst ` set m" by (simp add: set_fst)
    from get_gene_counterpart_chain [OF dxs this subset_refl r, unfolded set_fst set_snd]
    show ?thesis using r Fr by simp
  qed
  have Fin: "F (X ! j) \<noteq> X ! i"
    if "j < n" "j < p1 \<or> p2 \<le> j" "X ! j \<in> set ys" "i < n" "i < p1 \<or> p2 \<le> i" for j i
  proof -
    from chain [OF that(1,2)] that(3) have "F (X ! j) \<in> set xs" by simp
    with outside [OF that(4,5)] show ?thesis by auto
  qed
  have Fout: "F (X ! j) = X ! j" if "j < n" "j < p1 \<or> p2 \<le> j" "X ! j \<notin> set ys" for j
    using chain [OF that(1,2)] that(3) by simp
  have gc: "get_gene_counterpart (X ! j) m = Some (F (X ! j))" if "j < n" "j < p1 \<or> p2 \<le> j" for j
    using chain [OF that] by simp
  let ?h = "\<lambda>j. if j < p1 \<or> p2 \<le> j then F (X ! j) else Y ! j"
  have "map (\<lambda>j. if j < n \<and> (j < p1 \<or> p2 \<le> j) then F (X ! j) else ch0 ! j) [0 ..< n] = map ?h [0 ..< n]"
  proof (rule map_cong [OF refl])
    fix j assume "j \<in> set [0 ..< n]"
    then have j: "j < n" by simp
    with ch0 show "(if j < n \<and> (j < p1 \<or> p2 \<le> j) then F (X ! j) else ch0 ! j) = ?h j"
      by auto
  qed
  with pmx_fill_prefix [OF len(1) len0 cut(1) cutn ch0 X seg gc Fin Fout le_refl]
  have run: "pmx_fill_chromosome p1 p2 m ch0 X = Some (Inr (map ?h [0 ..< n]))"
    by (simp add: pmx_fill_chromosome_def len(1))
  have "mset (map ?h [0 ..< n]) = mset X"
  proof (rule same_cities_permutation)
    show "distinct X" by (rule X(1))
    show "length (map ?h [0 ..< n]) = length X" by (simp add: len(1))
    show "set (map ?h [0 ..< n]) \<subseteq> set X"
    proof
      fix x assume "x \<in> set (map ?h [0 ..< n])"
      then obtain j where j: "j < n" "x = ?h j" by auto
      show "x \<in> set X"
      proof (cases "j < p1 \<or> p2 \<le> j")
        case True
        have "set xs \<subseteq> set X" unfolding xs_def slice_def by (auto dest: in_set_takeD in_set_dropD)
        moreover have "X ! j \<in> set X" using j(1) len(1) by simp
        moreover from chain [OF j(1) True] have "F (X ! j) \<in> set xs \<or> F (X ! j) = X ! j"
          by (auto split: if_splits)
        ultimately show ?thesis using j(2) True by auto
      next
        case False
        with j have "x = Y ! j" by simp
        with j(1) len(2) have "x \<in> set Y" by simp
        with Y(2) show ?thesis by simp
      qed
    qed
    have "inj_on ?h (set [0 ..< n])"
    proof (rule inj_onI)
      fix j k assume jk: "j \<in> set [0 ..< n]" "k \<in> set [0 ..< n]" "?h j = ?h k"
      then have lt: "j < n" "k < n" by simp_all
      have mixed: False if "a < n" "b < n" "a < p1 \<or> p2 \<le> a" "\<not> (b < p1 \<or> p2 \<le> b)"
        "F (X ! a) = Y ! b" for a b
      proof -
        from that(4) have "Y ! b \<in> set ys" unfolding ys_set by auto
        with chain [OF that(1,3)] that(5) show False by simp
      qed
      show "j = k"
      proof (cases "j < p1 \<or> p2 \<le> j")
        case oj: True
        show ?thesis
        proof (cases "k < p1 \<or> p2 \<le> k")
          case ok: True
          with oj jk(3) have eq: "F (X ! j) = F (X ! k)" by simp
          have inj: "x = y" if "(x, z) \<in> (set m)\<inverse>" "(y, z) \<in> (set m)\<inverse>" for x y z
          proof -
            from that have zx: "(z, x) \<in> set m" and zy: "(z, y) \<in> set m" by simp_all
            from dxs have "inj_on fst (set m)" by (simp add: distinct_map)
            from inj_onD [OF this _ zx zy] show ?thesis by simp
          qed
          have "Range ((set m)\<inverse>) = set xs"
            unfolding set_fst [symmetric] by force
          then have "X ! j \<notin> Range ((set m)\<inverse>)" "X ! k \<notin> Range ((set m)\<inverse>)"
            using outside [OF lt(1) oj] outside [OF lt(2) ok] by simp_all
          moreover from chain [OF lt(1) oj] chain [OF lt(2) ok] eq
          have "(X ! j, F (X ! j)) \<in> ((set m)\<inverse>)\<^sup>*" "(X ! k, F (X ! j)) \<in> ((set m)\<inverse>)\<^sup>*"
            by simp_all
          ultimately have "X ! j = X ! k"
            using chain_origin_unique [of "(set m)\<inverse>" "X ! j" "F (X ! j)" "X ! k"] inj by blast
          with X(1) len(1) lt show ?thesis by (simp add: nth_eq_iff_index_eq)
        next
          case False
          with oj jk(3) mixed [OF lt oj False] show ?thesis by simp
        qed
      next
        case ij: False
        show ?thesis
        proof (cases "k < p1 \<or> p2 \<le> k")
          case True
          with ij jk(3) mixed [OF lt(2,1) True ij] show ?thesis by simp
        next
          case False
          with ij jk(3) have "Y ! j = Y ! k" by simp
          with Y(1) len(2) lt show ?thesis by (simp add: nth_eq_iff_index_eq)
        qed
      qed
    qed
    then show "distinct (map ?h [0 ..< n])" by (simp add: distinct_map)
  qed
  with run show ?thesis
    unfolding m_def xs_def ys_def ch0_def n_def by blast
qed

subsection \<open>All operators\<close>

lemma partially_mapped_crossover_permutes:
  fixes parent1 parent2 :: "'a option list"
  assumes p1: "distinct parent1" "None \<notin> set parent1"
    and p2: "distinct parent2" "set parent2 = set parent1"
    and pts: "valid_sample (length parent1) pts"
  shows "\<exists>c1 c2. partially_mapped_crossover pts parent1 parent2 = Some (Inr (c1, c2)) \<and>
           mset c1 = mset parent1 \<and> mset c2 = mset parent1"
proof -
  obtain a b where ab: "pts = (a, b)" by (cases pts)
  let ?p1 = "min a b" and ?p2 = "max a b"
  from valid_sample_bounds [OF pts] ab
  have cut: "?p1 \<le> ?p2" "?p2 \<le> length parent1" and n: "\<not> length parent1 < 2"
    by simp_all
  have len: "length parent2 = length parent1"
    using same_cities_same_length [OF p2(1) p1(1) p2(2)] .
  have None2: "None \<notin> set parent2" using p1(2) p2(2) by simp
  have same: "mset parent2 = mset parent1"
    using p1(1) p2 set_eq_iff_mset_eq_distinct by blast
  let ?s1 = "slice ?p1 ?p2 parent1" and ?s2 = "slice ?p1 ?p2 parent2"
  from pmx_fill_permutes [OF p1 p2 cut]
  obtain c1 where c1:
    "pmx_fill_chromosome ?p1 ?p2 (zip ?s1 ?s2)
       (slice_assign ?p1 ?p2 (replicate (length parent1) None) ?s2) parent1 = Some (Inr c1)"
    "mset c1 = mset parent1" by blast
  have cut': "?p2 \<le> length parent2" using cut(2) len by simp
  from pmx_fill_permutes [OF p2(1) None2 p1(1) p2(2) [symmetric] cut(1) cut']
  obtain c2 where c2:
    "pmx_fill_chromosome ?p1 ?p2 (zip ?s2 ?s1)
       (slice_assign ?p1 ?p2 (replicate (length parent2) None) ?s1) parent2 = Some (Inr c2)"
    "mset c2 = mset parent2" by blast
  have "pmx_fill_chromosome ?p1 ?p2 (zip ?s1 ?s2)
          (slice_assign ?p1 ?p2 (replicate (length parent1) None) ?s1) parent2 = Some (Inr c2)"
    using c2(1) pmx_fill_chromosome_swapped [of ?p1 ?p2 "zip ?s2 ?s1"]
    by (simp only: zip_swapped [of ?s1 ?s2] len)
  with c1 c2(2) same n show ?thesis
    by (simp add: partially_mapped_crossover_def sample2_def ab Let_def)
qed

lemma crossover_permutes:
  fixes parent1 parent2 :: "'a option list"
  assumes p1: "distinct parent1" "None \<notin> set parent1"
    and p2: "distinct parent2" "set parent2 = set parent1"
    and pts: "valid_sample (length parent1) pts"
    and c_type: "c_type \<in> {''ox'', ''pmx'', ''cx''}"
  shows "\<exists>c1 c2. crossover pts parent1 parent2 c_type = Some (Inr (Some (c1, c2))) \<and>
           mset c1 = mset parent1 \<and> mset c2 = mset parent1"
proof -
  from valid_sample_bounds(4) [OF pts] have ne: "parent1 \<noteq> []" by auto
  from order_crossover_permutes [OF p1 p2 pts] obtain o1 o2 where
    ox: "order_crossover pts parent1 parent2 = Inr (o1, o2)"
      "mset o1 = mset parent1" "mset o2 = mset parent1" by blast
  from partially_mapped_crossover_permutes [OF p1 p2 pts] obtain m1 m2 where
    pmx: "partially_mapped_crossover pts parent1 parent2 = Some (Inr (m1, m2))"
      "mset m1 = mset parent1" "mset m2 = mset parent1" by blast
  from cycle_crossover_permutes [OF p1 ne p2] obtain y1 y2 where
    cx: "cycle_crossover parent1 parent2 = Some (Inr (y1, y2))"
      "mset y1 = mset parent1" "mset y2 = mset parent1" by blast
  from c_type consider "c_type = ''ox''" | "c_type = ''pmx''" | "c_type = ''cx''" by auto
  then show ?thesis
  proof cases
    case 1
    with ox show ?thesis by (simp add: crossover_def)
  next
    case 2
    with pmx show ?thesis by (simp add: crossover_def)
  next
    case 3
    with cx show ?thesis by (simp add: crossover_def)
  qed
qed

lemma valid_permutation_mset:
  assumes "valid_permutation cities parent" "mset c = mset parent"
  shows "valid_permutation cities c"
proof -
  from assms(2) have "set c = set parent" by (rule mset_eq_setD)
  moreover from assms(2) have "distinct c \<longleftrightarrow> distinct parent" by (rule mset_eq_imp_distinct_iff)
  ultimately show ?thesis using assms(1) by (simp add: valid_permutation_def)
qed

lemma valid_permutation_length:
  assumes "valid_permutation cities chromosome"
  shows "length chromosome = card cities"
proof -
  from assms have d: "distinct chromosome" and s: "set chromosome = Some ` cities"
    by (simp_all add: valid_permutation_def)
  from d have "length chromosome = card (set chromosome)" by (simp add: distinct_card)
  also from s have "\<dots> = card (Some ` cities)" by simp
  also have "\<dots> = card cities" by (rule card_image) simp
  finally show ?thesis .
qed

text \<open>The operators at one drawn pair of distinct positions.\<close>

lemma operators_keep_permutation_at_sample:
  fixes parent1 parent2 :: "'a option list"
  assumes v1: "valid_permutation cities parent1"
    and v2: "valid_permutation cities parent2"
    and pts: "valid_sample (length parent1) pts"
  shows "(\<forall>m_type \<in> {''swap'', ''inverse'', ''2-opt'', ''random''}.
            \<exists>c. mutate m_type rand pts parent1 = (None, c) \<and> valid_permutation cities c) \<and>
         (\<forall>c_type \<in> {''ox'', ''pmx'', ''cx''}.
            \<exists>child1 child2.
              crossover pts parent1 parent2 c_type = Some (Inr (Some (child1, child2))) \<and>
              valid_permutation cities child1 \<and> valid_permutation cities child2)"
proof (intro conjI ballI)
  fix m_type :: string
  assume "m_type \<in> {''swap'', ''inverse'', ''2-opt'', ''random''}"
  from mutate_permutes [OF pts this, of rand] obtain c where
    "mutate m_type rand pts parent1 = (None, c)" "mset c = mset parent1" by blast
  with valid_permutation_mset [OF v1]
  show "\<exists>c. mutate m_type rand pts parent1 = (None, c) \<and> valid_permutation cities c" by blast
next
  fix c_type :: string
  assume c_type: "c_type \<in> {''ox'', ''pmx'', ''cx''}"
  from v1 v2 have p1: "distinct parent1" "None \<notin> set parent1"
    and p2: "distinct parent2" "set parent2 = set parent1"
    by (auto simp: valid_permutation_def)
  from crossover_permutes [OF p1 p2 pts c_type] obtain child1 child2 where
    "crossover pts parent1 parent2 c_type = Some (Inr (Some (child1, child2)))"
    "mset child1 = mset parent1" "mset child2 = mset parent1" by blast
  with valid_permutation_mset [OF v1]
  show "\<exists>child1 child2.
          crossover pts parent1 parent2 c_type = Some (Inr (Some (child1, child2))) \<and>
          valid_permutation cities child1 \<and> valid_permutation cities child2" by blast
qed

text \<open>
  With one city \<^verbatim>\<open>random.sample(range(1), k=2)\<close> raises \<^verbatim>\<open>ValueError\<close> and returns no pair,
  so the pair passed for it is never read.
\<close>

lemma one_city_operators_raise:
  "crossover pts [gene] [gene] ''ox'' = Some (Inl ValueError)"
  "crossover pts [gene] [gene] ''pmx'' = Some (Inl ValueError)"
  "mutate ''swap'' rand pts [gene] = (Some ValueError, [gene])"
  "mutate ''inverse'' rand pts [gene] = (Some ValueError, [gene])"
  "mutate ''2-opt'' rand pts [gene] = (Some ValueError, [gene])"
  by (simp_all add: crossover_def order_crossover_def partially_mapped_crossover_def
      sample2_def mutate_def swap_mutation_def inversion_mutation_def two_opt_mutation_def)

text \<open>
  The statement fails on a map of one city. The chromosome \<open>[1]\<close> is a valid permutation
  of the city set \<open>{1}\<close>; the order crossover, the partially mapped crossover and the
  swap, inversion and edge exchange mutations of it raise \<^verbatim>\<open>ValueError\<close> and produce no
  chromosome.
\<close>

theorem one_city_operators_raise_counterexample:
  "valid_permutation {1 :: int} [Some 1] \<and>
   crossover (0, 0) [Some (1 :: int)] [Some 1] ''ox'' = Some (Inl ValueError) \<and>
   crossover (0, 0) [Some (1 :: int)] [Some 1] ''pmx'' = Some (Inl ValueError) \<and>
   mutate ''swap'' 0 (0, 0) [Some (1 :: int)] = (Some ValueError, [Some 1]) \<and>
   mutate ''inverse'' 0 (0, 0) [Some (1 :: int)] = (Some ValueError, [Some 1]) \<and>
   mutate ''2-opt'' 0 (0, 0) [Some (1 :: int)] = (Some ValueError, [Some 1])"
  by (simp add: valid_permutation_def crossover_def order_crossover_def
      partially_mapped_crossover_def sample2_def mutate_def swap_mutation_def
      inversion_mutation_def two_opt_mutation_def)

text \<open>
  C1, as amended. Let two parents be valid permutations of the same set of at least two
  cities. Then both chromosomes have as many entries as there are cities, so
  \<^verbatim>\<open>random.sample\<close> has two distinct positions to return, and for every pair of distinct
  positions it returns and every number \<^verbatim>\<open>random.randrange\<close> returns: every mutation type
  (swap, inversion, edge exchange, random) returns without raising and leaves a valid
  permutation of the city set, and every crossover type (ox, pmx, cx) returns two
  children that are valid permutations of the city set: every city exactly once, none
  twice, none missing.
\<close>

theorem mutation_and_crossover_keep_permutation:
  fixes parent1 parent2 :: "'a option list"
  assumes v1: "valid_permutation cities parent1"
    and v2: "valid_permutation cities parent2"
    and two: "2 \<le> card cities"
  shows "length parent1 = card cities \<and> length parent2 = card cities \<and>
         (\<exists>pts. valid_sample (card cities) pts) \<and>
         (\<forall>pts rand. valid_sample (card cities) pts \<longrightarrow>
            (\<forall>m_type \<in> {''swap'', ''inverse'', ''2-opt'', ''random''}.
               \<exists>c. mutate m_type rand pts parent1 = (None, c) \<and> valid_permutation cities c) \<and>
            (\<forall>c_type \<in> {''ox'', ''pmx'', ''cx''}.
               \<exists>child1 child2.
                 crossover pts parent1 parent2 c_type = Some (Inr (Some (child1, child2))) \<and>
                 valid_permutation cities child1 \<and> valid_permutation cities child2))"
proof (intro conjI allI impI)
  show "length parent1 = card cities" using v1 by (rule valid_permutation_length)
  show "length parent2 = card cities" using v2 by (rule valid_permutation_length)
  from two have "valid_sample (card cities) (0, 1)" by (simp add: valid_sample_def)
  then show "\<exists>pts. valid_sample (card cities) pts" ..
next
  fix pts :: "nat \<times> nat" and rand :: nat
  assume "valid_sample (card cities) pts"
  with valid_permutation_length [OF v1] have pts: "valid_sample (length parent1) pts" by simp
  from operators_keep_permutation_at_sample [OF v1 v2 pts, of rand]
  show "\<forall>m_type \<in> {''swap'', ''inverse'', ''2-opt'', ''random''}.
               \<exists>c. mutate m_type rand pts parent1 = (None, c) \<and> valid_permutation cities c"
    by (rule conjunct1)
  from operators_keep_permutation_at_sample [OF v1 v2 pts, of rand]
  show "\<forall>c_type \<in> {''ox'', ''pmx'', ''cx''}.
               \<exists>child1 child2.
                 crossover pts parent1 parent2 c_type = Some (Inr (Some (child1, child2))) \<and>
                 valid_permutation cities child1 \<and> valid_permutation cities child2"
    by (rule conjunct2)
qed

text \<open>The parents [1,2,3,4,5] and [5,4,3,2,1] with the drawn pair (1, 3).\<close>

theorem mutation_and_crossover_keep_permutation_witness:
  "valid_permutation {1, 2, 3, 4, 5 :: int} (map Some [1, 2, 3, 4, 5]) \<and>
   valid_permutation {1, 2, 3, 4, 5 :: int} (map Some [5, 4, 3, 2, 1]) \<and>
   2 \<le> card {1, 2, 3, 4, 5 :: int} \<and>
   valid_sample (card {1, 2, 3, 4, 5 :: int}) (1, 3) \<and>
   (\<exists>c. mutate ''2-opt'' 0 (1, 3) (map Some [1, 2, 3, 4, 5 :: int]) = (None, c) \<and>
        valid_permutation {1, 2, 3, 4, 5} c) \<and>
   (\<exists>child1 child2.
      crossover (1, 3) (map Some [1, 2, 3, 4, 5 :: int]) (map Some [5, 4, 3, 2, 1]) ''pmx''
        = Some (Inr (Some (child1, child2))) \<and>
      valid_permutation {1, 2, 3, 4, 5} child1 \<and> valid_permutation {1, 2, 3, 4, 5} child2)"
proof -
  have v1: "valid_permutation {1, 2, 3, 4, 5 :: int} (map Some [1, 2, 3, 4, 5])"
    and v2: "valid_permutation {1, 2, 3, 4, 5 :: int} (map Some [5, 4, 3, 2, 1])"
    by (auto simp: valid_permutation_def)
  have two: "2 \<le> card {1, 2, 3, 4, 5 :: int}" by simp
  have pts: "valid_sample (card {1, 2, 3, 4, 5 :: int}) (1, 3)"
    by (simp add: valid_sample_def)
  from mutation_and_crossover_keep_permutation [OF v1 v2 two] pts
  have "\<exists>c. mutate ''2-opt'' 0 (1, 3) (map Some [1, 2, 3, 4, 5 :: int]) = (None, c) \<and>
          valid_permutation {1, 2, 3, 4, 5} c"
    and "\<exists>child1 child2.
      crossover (1, 3) (map Some [1, 2, 3, 4, 5 :: int]) (map Some [5, 4, 3, 2, 1]) ''pmx''
        = Some (Inr (Some (child1, child2))) \<and>
      valid_permutation {1, 2, 3, 4, 5} child1 \<and> valid_permutation {1, 2, 3, 4, 5} child2"
    by blast+
  with v1 v2 two pts show ?thesis by (intro conjI)
qed

section \<open>Properties of the generation step\<close>

subsection \<open>Sorting the members\<close>

lemma collect_keys_Inr:
  "collect_keys xs = Inr ks \<Longrightarrow> xs = map Inr ks"
  by (induction xs arbitrary: ks rule: collect_keys.induct) (auto split: sum.splits)

lemma last_slice_length:
  "length (last_slice k xs) = (if k = 0 then length xs else min k (length xs))"
  by (auto simp: last_slice_def)

lemma last_slice_subset: "set (last_slice k xs) \<subseteq> set xs"
  by (auto simp: last_slice_def dest: in_set_dropD)

text \<open>What a successful \<open>sort_members\<close> says about its result.\<close>

lemma sort_members_Inr:
  assumes "sort_members fit P = Inr sorted_members"
  shows "\<exists>keys. length keys = length (members P) \<and>
           map (\<lambda>x. fit (chromosome_of P x)) (members P) = map Inr keys \<and>
           sorted_members = map snd (sort_key fst (zip keys (members P)))"
  using assms
  by (auto simp: sort_members_def split: sum.splits dest!: collect_keys_Inr)
     (metis length_map)

lemma sort_members_mset:
  assumes "sort_members fit P = Inr sorted_members"
  shows "mset sorted_members = mset (members P)"
proof -
  from sort_members_Inr [OF assms] obtain keys where
    len: "length keys = length (members P)" and
    keys: "map (\<lambda>x. fit (chromosome_of P x)) (members P) = map Inr keys" and
    srt: "sorted_members = map snd (sort_key fst (zip keys (members P)))" by blast
  have "mset sorted_members = image_mset snd (mset (sort_key fst (zip keys (members P))))"
    by (simp add: srt)
  also have "\<dots> = image_mset snd (mset (zip keys (members P)))" by simp
  also have "\<dots> = mset (map snd (zip keys (members P)))" by simp
  also have "\<dots> = mset (members P)" using len by simp
  finally show ?thesis .
qed

lemma sort_members_key:
  assumes "sort_members fit P = Inr sorted_members"
  shows "\<exists>key. (\<forall>x \<in> set (members P). fit (chromosome_of P x) = Inr (key x)) \<and>
               sorted (map key sorted_members)"
proof -
  from sort_members_Inr [OF assms] obtain keys where
    len: "length keys = length (members P)" and
    keys: "map (\<lambda>x. fit (chromosome_of P x)) (members P) = map Inr keys" and
    srt: "sorted_members = map snd (sort_key fst (zip keys (members P)))" by blast
  define key where "key x = projr (fit (chromosome_of P x))" for x
  have pair: "fit (chromosome_of P x) = Inr k" if "(k, x) \<in> set (zip keys (members P))" for k x
  proof -
    from that obtain i where i: "i < length (members P)" "keys ! i = k" "members P ! i = x"
      using len by (auto simp: set_zip)
    from keys have "map (\<lambda>x. fit (chromosome_of P x)) (members P) ! i = map Inr keys ! i" by simp
    with i len show ?thesis by simp
  qed
  have all: "\<forall>x \<in> set (members P). fit (chromosome_of P x) = Inr (key x)"
  proof
    fix x assume "x \<in> set (members P)"
    then obtain i where i: "i < length (members P)" "members P ! i = x"
      by (auto simp: in_set_conv_nth)
    with len have "(keys ! i, x) \<in> set (zip keys (members P))"
      by (auto simp: set_zip)
    from pair [OF this] show "fit (chromosome_of P x) = Inr (key x)" by (simp add: key_def)
  qed
  have "map key sorted_members = map fst (sort_key fst (zip keys (members P)))"
    unfolding srt map_map
  proof (rule map_cong [OF refl])
    fix p assume "p \<in> set (sort_key fst (zip keys (members P)))"
    then have "(fst p, snd p) \<in> set (zip keys (members P))" by simp
    from pair [OF this] show "(key \<circ> snd) p = fst p" by (simp add: key_def)
  qed
  then have "sorted (map key sorted_members)" by simp
  with all show ?thesis by blast
qed

subsection \<open>The reproduction loop touches no object that existed before\<close>

lemma mutate_genome_frame:
  assumes "mutate_genome m_type rand pts child P = (raised, P')"
  shows "members P' = members P \<and> pop_size P' = pop_size P \<and> allocated P' = allocated P \<and>
         (\<forall>r. r \<noteq> child \<longrightarrow> chromosome_of P' r = chromosome_of P r)"
  using assms by (auto simp: mutate_genome_def split: prod.splits)

lemma new_genome_frame:
  assumes "new_genome chromosome P = (child, P')"
  shows "child = allocated P \<and> members P' = members P \<and> pop_size P' = pop_size P \<and>
         allocated P' = Suc (allocated P) \<and> chromosome_of P' child = chromosome \<and>
         (\<forall>r. r \<noteq> child \<longrightarrow> chromosome_of P' r = chromosome_of P r)"
  using assms by (auto simp: new_genome_def)

lemma reproduce_frame:
  assumes "reproduce c_type m_type parents draws i (P, next_gen_members) = Some (Inr (P', next'))"
  shows "members P' = members P \<and> pop_size P' = pop_size P \<and>
         allocated P' = allocated P + 2 \<and>
         (\<forall>r < allocated P. chromosome_of P' r = chromosome_of P r) \<and>
         next' = next_gen_members @ [allocated P, Suc (allocated P)] \<and>
         i + 1 < length parents"
proof -
  from assms have len: "i + 1 < length parents"
    by (auto simp: reproduce_def split: if_splits)
  from assms len obtain child1_x child2_x where
    rest: "(let (child1, P1) = new_genome child1_x P;
                (child2, P2) = new_genome child2_x P1
            in case mutate_genome m_type (rand1 (draws i)) (points1 (draws i)) child1 P2 of
                 (Some e, P3) \<Rightarrow> Some (Inl e)
               | (None, P3) \<Rightarrow>
                   (case mutate_genome m_type (rand2 (draws i)) (points2 (draws i)) child2 P3 of
                      (Some e, P4) \<Rightarrow> Some (Inl e)
                    | (None, P4) \<Rightarrow> Some (Inr (P4, next_gen_members @ [child1, child2]))))
           = Some (Inr (P', next'))"
    by (auto simp: reproduce_def and_then_Inr Let_def split: option.splits)
  obtain child1 P1 where n1: "new_genome child1_x P = (child1, P1)" by (cases "new_genome child1_x P")
  obtain child2 P2 where n2: "new_genome child2_x P1 = (child2, P2)" by (cases "new_genome child2_x P1")
  obtain r3 P3 where m1: "mutate_genome m_type (rand1 (draws i)) (points1 (draws i)) child1 P2 = (r3, P3)"
    by (cases "mutate_genome m_type (rand1 (draws i)) (points1 (draws i)) child1 P2")
  obtain r4 P4 where m2: "mutate_genome m_type (rand2 (draws i)) (points2 (draws i)) child2 P3 = (r4, P4)"
    by (cases "mutate_genome m_type (rand2 (draws i)) (points2 (draws i)) child2 P3")
  from rest n1 n2 m1 m2 have res: "P' = P4" "next' = next_gen_members @ [child1, child2]"
    by (auto split: option.splits)
  note f1 = new_genome_frame [OF n1] and f2 = new_genome_frame [OF n2]
    and f3 = mutate_genome_frame [OF m1] and f4 = mutate_genome_frame [OF m2]
  have "members P' = members P" "pop_size P' = pop_size P" "allocated P' = allocated P + 2"
    using res f1 f2 f3 f4 by simp_all
  moreover have "\<forall>r < allocated P. chromosome_of P' r = chromosome_of P r"
    using res f1 f2 f3 f4 by simp
  moreover have "next' = next_gen_members @ [allocated P, Suc (allocated P)]"
    using res f1 f2 by simp
  ultimately show ?thesis using len by simp
qed

lemma reproduce_loop_stuck:
  "fold (\<lambda>i acc. and_then acc (f i)) is None = None"
  "fold (\<lambda>i acc. and_then acc (f i)) is (Some (Inl e)) = Some (Inl e)"
  by (induction "is") simp_all

lemma reproduce_loop_frame:
  assumes "fold (\<lambda>i acc. and_then acc (reproduce c_type m_type parents draws i)) is
             (Some (Inr (P, next_gen_members))) = Some (Inr (P', next'))"
  shows "members P' = members P \<and> pop_size P' = pop_size P \<and>
         allocated P \<le> allocated P' \<and>
         (\<forall>r < allocated P. chromosome_of P' r = chromosome_of P r) \<and>
         (\<exists>children. next' = next_gen_members @ children \<and> length children = 2 * length is \<and>
            (\<forall>r \<in> set children. allocated P \<le> r \<and> r < allocated P')) \<and>
         (\<forall>i \<in> set is. i + 1 < length parents)"
  using assms
proof (induction "is" arbitrary: P next_gen_members)
  case Nil
  then show ?case by simp
next
  case (Cons i "is")
  let ?step = "reproduce c_type m_type parents draws i (P, next_gen_members)"
  have "\<exists>P1 next1. ?step = Some (Inr (P1, next1))"
  proof (cases ?step)
    case None
    with Cons.prems show ?thesis by (simp add: reproduce_loop_stuck)
  next
    case (Some a)
    with Cons.prems show ?thesis by (cases a) (auto simp: reproduce_loop_stuck)
  qed
  then obtain P1 next1 where step: "?step = Some (Inr (P1, next1))" by blast
  note f = reproduce_frame [OF step]
  from Cons.prems step
  have "fold (\<lambda>i acc. and_then acc (reproduce c_type m_type parents draws i)) is
          (Some (Inr (P1, next1))) = Some (Inr (P', next'))" by simp
  from Cons.IH [OF this] obtain children where
    ih: "members P' = members P1" "pop_size P' = pop_size P1" "allocated P1 \<le> allocated P'"
        "\<forall>r < allocated P1. chromosome_of P' r = chromosome_of P1 r"
        "next' = next1 @ children" "length children = 2 * length is"
        "\<forall>r \<in> set children. allocated P1 \<le> r \<and> r < allocated P'"
        "\<forall>i \<in> set is. i + 1 < length parents"
    by blast
  have "next' = next_gen_members @ ([allocated P, Suc (allocated P)] @ children)"
    using f ih by simp
  moreover have "length ([allocated P, Suc (allocated P)] @ children) = 2 * length (i # is)"
    using ih by simp
  moreover have "\<forall>r \<in> set ([allocated P, Suc (allocated P)] @ children).
                   allocated P \<le> r \<and> r < allocated P'"
    using f ih by auto
  ultimately have "\<exists>children. next' = next_gen_members @ children \<and>
      length children = 2 * length (i # is) \<and>
      (\<forall>r \<in> set children. allocated P \<le> r \<and> r < allocated P')" by blast
  moreover have "\<forall>r < allocated P. chromosome_of P' r = chromosome_of P r"
    using f ih by simp
  ultimately show ?case using f ih by simp
qed

lemma top_k_selection_length:
  "top_k_selection fit picks P n k = Inr parents \<Longrightarrow> length parents = n"
  by (auto simp: top_k_selection_def Let_def split: sum.splits if_splits)

lemma generate_next_generation_Inr:
  assumes "generate_next_generation elitism top_k fit picks draws c_type m_type P = Some (Inr (P', best))"
  shows "\<exists>parents P1 children sorted_members.
           top_k_selection fit picks P (pop_size P - elitism) top_k = Inr parents \<and>
           fold (\<lambda>i acc. and_then acc (reproduce c_type m_type parents draws i))
             (map (\<lambda>j. 2 * j) [0 ..< (pop_size P - elitism + 1) div 2])
             (Some (Inr (P, []))) = Some (Inr (P1, children)) \<and>
           sort_members fit P1 = Inr sorted_members \<and> sorted_members \<noteq> [] \<and>
           P' = P1\<lparr>members := children @ last_slice elitism sorted_members\<rparr> \<and>
           best = last sorted_members"
proof -
  let ?n = "pop_size P - elitism"
  from assms obtain parents where
    sel: "top_k_selection fit picks P ?n top_k = Inr parents"
    by (cases "top_k_selection fit picks P ?n top_k")
       (auto simp: generate_next_generation_def Let_def)
  let ?loop = "fold (\<lambda>i acc. and_then acc (reproduce c_type m_type parents draws i))
                 (map (\<lambda>j. 2 * j) [0 ..< (?n + 1) div 2]) (Some (Inr (P, [])))"
  from assms sel have
    "and_then ?loop (\<lambda>(P, next_gen_members).
        case sort_members fit P of
          Inl e \<Rightarrow> Some (Inl e)
        | Inr sorted_members \<Rightarrow>
            (let next_gen_members = next_gen_members @ last_slice elitism sorted_members
             in if sorted_members = [] then Some (Inl IndexError)
                else Some (Inr (P\<lparr>members := next_gen_members\<rparr>, last sorted_members))))
     = Some (Inr (P', best))"
    by (simp add: generate_next_generation_def Let_def)
  then obtain P1 children where
    loop: "?loop = Some (Inr (P1, children))" and
    fin: "(case sort_members fit P1 of
             Inl e \<Rightarrow> Some (Inl e)
           | Inr sorted_members \<Rightarrow>
               (let next_gen_members = children @ last_slice elitism sorted_members
                in if sorted_members = [] then Some (Inl IndexError)
                   else Some (Inr (P1\<lparr>members := next_gen_members\<rparr>, last sorted_members))))
          = Some (Inr (P', best))"
    unfolding and_then_Inr by auto
  from fin obtain sorted_members where
    "sort_members fit P1 = Inr sorted_members" "sorted_members \<noteq> []"
    "P' = P1\<lparr>members := children @ last_slice elitism sorted_members\<rparr>"
    "best = last sorted_members"
    by (cases "sort_members fit P1") (auto simp: Let_def split: if_splits)
  with sel loop show ?thesis by blast
qed

lemma sort_members_frame:
  assumes "members P1 = members P"
    and "\<forall>r \<in> set (members P). chromosome_of P1 r = chromosome_of P r"
  shows "sort_members fit P1 = sort_members fit P"
proof -
  have "map (\<lambda>x. fit (chromosome_of P1 x)) (members P) = map (\<lambda>x. fit (chromosome_of P x)) (members P)"
    using assms(2) by (intro map_cong) simp_all
  then show ?thesis by (simp only: sort_members_def assms(1))
qed

text \<open>What a step that returns has done.\<close>

lemma generate_next_generation_effect:
  assumes run: "generate_next_generation elitism top_k fit picks draws c_type m_type P = Some (Inr (P', best))"
    and wf: "members_allocated P"
  obtains children sorted_members where
    "sort_members fit P = Inr sorted_members" and "sorted_members \<noteq> []" and
    "best = last sorted_members" and
    "members P' = children @ last_slice elitism sorted_members" and
    "pop_size P' = pop_size P" and
    "length children = 2 * ((pop_size P - elitism + 1) div 2)" and
    "pop_size P - elitism = 0 \<or> even (pop_size P - elitism)" and
    "\<forall>r \<in> set children. allocated P \<le> r" and
    "\<forall>r < allocated P. chromosome_of P' r = chromosome_of P r"
proof -
  let ?n = "pop_size P - elitism"
  from generate_next_generation_Inr [OF run] obtain parents P1 children sorted_members where
    sel: "top_k_selection fit picks P ?n top_k = Inr parents" and
    loop: "fold (\<lambda>i acc. and_then acc (reproduce c_type m_type parents draws i))
             (map (\<lambda>j. 2 * j) [0 ..< (?n + 1) div 2])
             (Some (Inr (P, []))) = Some (Inr (P1, children))" and
    srt: "sort_members fit P1 = Inr sorted_members" and ne: "sorted_members \<noteq> []" and
    P': "P' = P1\<lparr>members := children @ last_slice elitism sorted_members\<rparr>" and
    best: "best = last sorted_members"
    by blast
  from reproduce_loop_frame [OF loop] have
    f: "members P1 = members P" "pop_size P1 = pop_size P"
       "\<forall>r < allocated P. chromosome_of P1 r = chromosome_of P r"
       "length children = 2 * ((?n + 1) div 2)"
       "\<forall>r \<in> set children. allocated P \<le> r"
       "\<forall>i \<in> set (map (\<lambda>j. 2 * j) [0 ..< (?n + 1) div 2]). i + 1 < length parents"
    by auto
  have "\<forall>r \<in> set (members P). chromosome_of P1 r = chromosome_of P r"
    using wf f(3) by (auto simp: members_allocated_def list_all_iff)
  from sort_members_frame [OF f(1) this, of fit] srt
  have srt': "sort_members fit P = Inr sorted_members" by simp
  have parity: "?n = 0 \<or> even ?n"
  proof (rule ccontr)
    assume "\<not> (?n = 0 \<or> even ?n)"
    then have odd: "odd ?n" and pos: "0 < ?n" by auto
    then have "(?n + 1) div 2 - 1 < (?n + 1) div 2" by simp
    then have "2 * ((?n + 1) div 2 - 1) \<in> set (map (\<lambda>j. 2 * j) [0 ..< (?n + 1) div 2])"
      by (simp del: upt_Suc)
    with f(6) have "2 * ((?n + 1) div 2 - 1) + 1 < length parents" by blast
    moreover have "2 * ((?n + 1) div 2 - 1) + 1 = ?n" using odd pos by presburger
    ultimately show False using top_k_selection_length [OF sel] by simp
  qed
  show ?thesis
  proof (rule that [of sorted_members children])
    show "members P' = children @ last_slice elitism sorted_members" using P' by simp
    show "pop_size P' = pop_size P" using P' f(2) by simp
    show "\<forall>r < allocated P. chromosome_of P' r = chromosome_of P r" using P' f(3) by simp
  qed (use srt' ne best f(4,5) parity in simp_all)
qed

subsection \<open>When a step returns\<close>

text \<open>
  \<^verbatim>\<open>sorted\<close> returns when \<^verbatim>\<open>get_fitness\<close> does on every member, and \<^verbatim>\<open>random.choices\<close> has
  something to draw from when there is a member.
\<close>

lemma collect_keys_total:
  assumes "\<forall>x \<in> set xs. \<exists>k. x = Inr k"
  shows "\<exists>ks. collect_keys xs = Inr ks"
  using assms
proof (induction xs)
  case Nil
  show ?case by simp
next
  case (Cons x xs)
  from Cons.prems obtain k where x: "x = Inr k" by auto
  from Cons.prems have "\<forall>x \<in> set xs. \<exists>k. x = Inr k" by simp
  from Cons.IH [OF this] obtain ks where "collect_keys xs = Inr ks" by blast
  with x show ?case by simp
qed

lemma sort_members_returns:
  assumes "\<forall>x \<in> set (members P). \<exists>k. fit (chromosome_of P x) = Inr k"
  shows "\<exists>sorted_members. sort_members fit P = Inr sorted_members"
proof -
  have "\<forall>y \<in> set (map (\<lambda>x. fit (chromosome_of P x)) (members P)). \<exists>k. y = Inr k"
    using assms by auto
  from collect_keys_total [OF this] obtain ks where
    "collect_keys (map (\<lambda>x. fit (chromosome_of P x)) (members P)) = Inr ks" by blast
  then show ?thesis by (simp add: sort_members_def)
qed

lemma last_slice_nonempty: "xs \<noteq> [] \<Longrightarrow> last_slice k xs \<noteq> []"
  by (cases xs) (auto simp: last_slice_def)

lemma top_k_selection_returns:
  assumes srt: "sort_members fit P = Inr sorted_members" and ne: "members P \<noteq> []"
  shows "\<exists>parents. top_k_selection fit picks P n k = Inr parents \<and> length parents = n \<and>
           set parents \<subseteq> set (members P)"
proof -
  let ?top_k = "last_slice k sorted_members"
  have same: "set sorted_members = set (members P)"
    using sort_members_mset [OF srt] by (rule mset_eq_setD)
  with ne have "sorted_members \<noteq> []" by auto
  then have top: "?top_k \<noteq> []" by (rule last_slice_nonempty)
  let ?parents = "map (\<lambda>i. ?top_k ! (picks i mod length ?top_k)) [0 ..< n]"
  have sel: "top_k_selection fit picks P n k = Inr ?parents"
    using srt top by (simp add: top_k_selection_def Let_def)
  have "set ?parents \<subseteq> set ?top_k"
  proof
    fix r assume "r \<in> set ?parents"
    then obtain i where r: "r = ?top_k ! (picks i mod length ?top_k)" by auto
    from top have "picks i mod length ?top_k < length ?top_k" by simp
    then show "r \<in> set ?top_k" unfolding r by (rule nth_mem)
  qed
  also have "\<dots> \<subseteq> set sorted_members" by (rule last_slice_subset)
  finally have "set ?parents \<subseteq> set (members P)" using same by simp
  with sel show ?thesis by (intro exI [of _ ?parents] conjI) simp_all
qed

text \<open>One pass of the loop on two parents that are valid permutations.\<close>

lemma reproduce_returns:
  fixes P :: "'a population"
  assumes i: "i + 1 < length parents"
    and v1: "valid_permutation cities (chromosome_of P (parents ! i))"
    and v2: "valid_permutation cities (chromosome_of P (parents ! (i + 1)))"
    and c_type: "c_type \<in> {''ox'', ''pmx'', ''cx''}"
    and m_type: "m_type \<in> {''swap'', ''inverse'', ''2-opt'', ''random''}"
    and d0: "valid_sample (card cities) (cross_points (draws i))"
    and d1: "valid_sample (card cities) (points1 (draws i))"
    and d2: "valid_sample (card cities) (points2 (draws i))"
  shows "\<exists>P' next'. reproduce c_type m_type parents draws i (P, next_gen_members)
           = Some (Inr (P', next'))"
proof -
  let ?p1 = "chromosome_of P (parents ! i)" and ?p2 = "chromosome_of P (parents ! (i + 1))"
  from d0 valid_permutation_length [OF v1]
  have pts: "valid_sample (length ?p1) (cross_points (draws i))" by simp
  from operators_keep_permutation_at_sample [OF v1 v2 pts, of 0] c_type
  obtain c1 c2 where
    cr: "crossover (cross_points (draws i)) ?p1 ?p2 c_type = Some (Inr (Some (c1, c2)))" and
    vc1: "valid_permutation cities c1" and vc2: "valid_permutation cities c2" by blast
  from d1 valid_permutation_length [OF vc1]
  have "valid_sample (length c1) (points1 (draws i))" by simp
  from mutate_permutes [OF this m_type, of "rand1 (draws i)"] obtain m1 where
    mu1: "mutate m_type (rand1 (draws i)) (points1 (draws i)) c1 = (None, m1)" by blast
  from d2 valid_permutation_length [OF vc2]
  have "valid_sample (length c2) (points2 (draws i))" by simp
  from mutate_permutes [OF this m_type, of "rand2 (draws i)"] obtain m2 where
    mu2: "mutate m_type (rand2 (draws i)) (points2 (draws i)) c2 = (None, m2)" by blast
  show ?thesis
    using i cr mu1 mu2
    by (simp add: reproduce_def new_genome_def mutate_genome_def Let_def)
qed

lemma reproduce_loop_returns:
  fixes P :: "'a population"
  assumes "\<forall>i \<in> set is. i + 1 < length parents"
    and "\<forall>r \<in> set parents. r < allocated P \<and> valid_permutation cities (chromosome_of P r)"
    and c_type: "c_type \<in> {''ox'', ''pmx'', ''cx''}"
    and m_type: "m_type \<in> {''swap'', ''inverse'', ''2-opt'', ''random''}"
    and draws: "\<forall>i. valid_sample (card cities) (cross_points (draws i)) \<and>
                    valid_sample (card cities) (points1 (draws i)) \<and>
                    valid_sample (card cities) (points2 (draws i))"
  shows "\<exists>P' next'. fold (\<lambda>i acc. and_then acc (reproduce c_type m_type parents draws i)) is
             (Some (Inr (P, next_gen_members))) = Some (Inr (P', next'))"
  using assms(1,2)
proof (induction "is" arbitrary: P next_gen_members)
  case Nil
  show ?case by simp
next
  case (Cons i "is")
  from Cons.prems(1) have i: "i + 1 < length parents" by simp
  then have "parents ! i \<in> set parents" "parents ! (i + 1) \<in> set parents" by simp_all
  with Cons.prems(2) have
    "valid_permutation cities (chromosome_of P (parents ! i))"
    "valid_permutation cities (chromosome_of P (parents ! (i + 1)))" by blast+
  from reproduce_returns [OF i this c_type m_type, of draws next_gen_members] draws
  obtain P1 next1 where
    step: "reproduce c_type m_type parents draws i (P, next_gen_members) = Some (Inr (P1, next1))"
    by blast
  note f = reproduce_frame [OF step]
  have "\<forall>r \<in> set parents. r < allocated P1 \<and> valid_permutation cities (chromosome_of P1 r)"
  proof
    fix r assume "r \<in> set parents"
    with Cons.prems(2) have "r < allocated P" "valid_permutation cities (chromosome_of P r)"
      by simp_all
    with f show "r < allocated P1 \<and> valid_permutation cities (chromosome_of P1 r)" by simp
  qed
  moreover from Cons.prems(1) have "\<forall>i \<in> set is. i + 1 < length parents" by simp
  ultimately obtain P' next' where
    "fold (\<lambda>i acc. and_then acc (reproduce c_type m_type parents draws i)) is
       (Some (Inr (P1, next1))) = Some (Inr (P', next'))"
    using Cons.IH by blast
  with step show ?case by simp
qed

text \<open>
  A step returns a genome when the population has a member, the members are valid
  permutations of a set of at least two cities with a fitness (a tour of length zero has
  none), the number of parents \<^verbatim>\<open>size - ELITISM\<close> is even or negative, and the crossover and
  mutation types are supported ones.
\<close>

lemma generate_next_generation_total:
  fixes P :: "'a population"
  assumes wf: "members_allocated P" and ne: "members P \<noteq> []"
    and perm: "\<forall>x \<in> set (members P). valid_permutation cities (chromosome_of P x)"
    and two: "2 \<le> card cities"
    and fit: "\<forall>x \<in> set (members P). \<exists>k. fit (chromosome_of P x) = Inr k"
    and parity: "even (pop_size P - elitism)"
    and c_type: "c_type \<in> {''ox'', ''pmx'', ''cx''}"
    and m_type: "m_type \<in> {''swap'', ''inverse'', ''2-opt'', ''random''}"
    and draws: "\<forall>i. valid_sample (card cities) (cross_points (draws i)) \<and>
                    valid_sample (card cities) (points1 (draws i)) \<and>
                    valid_sample (card cities) (points2 (draws i))"
  shows "\<exists>P' best. generate_next_generation elitism top_k fit picks draws c_type m_type P
           = Some (Inr (P', best))"
proof -
  let ?n = "pop_size P - elitism"
  let ?is = "map (\<lambda>j. 2 * j) [0 ..< (?n + 1) div 2]"
  from sort_members_returns [OF fit] obtain sorted_members where
    srt: "sort_members fit P = Inr sorted_members" by blast
  have "set sorted_members = set (members P)"
    using sort_members_mset [OF srt] by (rule mset_eq_setD)
  with ne have sne: "sorted_members \<noteq> []" by auto
  from top_k_selection_returns [OF srt ne, of picks ?n top_k] obtain parents where
    sel: "top_k_selection fit picks P ?n top_k = Inr parents" and
    len: "length parents = ?n" and sub: "set parents \<subseteq> set (members P)" by blast
  have idx: "\<forall>i \<in> set ?is. i + 1 < length parents"
  proof
    fix i assume "i \<in> set ?is"
    then obtain j where j: "i = 2 * j" "j < (?n + 1) div 2" by auto
    with parity have "2 * j + 1 < ?n" by presburger
    with j len show "i + 1 < length parents" by simp
  qed
  have old: "\<forall>r \<in> set parents. r < allocated P \<and> valid_permutation cities (chromosome_of P r)"
    using sub perm wf by (auto simp: members_allocated_def list_all_iff)
  from reproduce_loop_returns [OF idx old c_type m_type draws, of "[]"] obtain P1 children where
    loop: "fold (\<lambda>i acc. and_then acc (reproduce c_type m_type parents draws i)) ?is
             (Some (Inr (P, []))) = Some (Inr (P1, children))" by blast
  from reproduce_loop_frame [OF loop] have
    f: "members P1 = members P" "\<forall>r < allocated P. chromosome_of P1 r = chromosome_of P r"
    by simp_all
  have "\<forall>r \<in> set (members P). chromosome_of P1 r = chromosome_of P r"
    using wf f(2) by (auto simp: members_allocated_def list_all_iff)
  from sort_members_frame [OF f(1) this, of fit] srt
  have srt1: "sort_members fit P1 = Inr sorted_members" by simp
  show ?thesis
    using sel loop srt1 sne by (simp add: generate_next_generation_def Let_def)
qed

subsection \<open>The four tours\<close>

lemma sqrt_squares: "sqrt 9 = 3" "sqrt 16 = 4" "sqrt 25 = 5"
  by (rule real_sqrt_unique; simp)+

lemma distances:
  "distance city_A city_B = 3" "distance city_B city_A = 3"
  "distance city_C city_D = 3" "distance city_D city_C = 3"
  "distance city_A city_C = 4" "distance city_C city_A = 4"
  "distance city_B city_D = 4" "distance city_D city_B = 4"
  "distance city_A city_D = 5" "distance city_D city_A = 5"
  "distance city_B city_C = 5" "distance city_C city_B = 5"
  by (simp_all add: distance_def city_A_def city_B_def city_C_def city_D_def sqrt_squares)

lemma upt4: "[0 ..< 4] = [0, 1, 2, 3]"
  by (simp add: upt_rec [of _ "numeral _"])

lemma four_tours_fitness:
  "get_fitness [Some city_A, Some city_B, Some city_C, Some city_D] = Inr (1 / 16)"
  "get_fitness [Some city_A, Some city_B, Some city_D, Some city_C] = Inr (1 / 14)"
  "get_fitness [Some city_A, Some city_D, Some city_B, Some city_C] = Inr (1 / 18)"
  "get_fitness [Some city_B, Some city_A, Some city_C, Some city_D] = Inr (1 / 14)"
  by (simp_all add: get_fitness_def upt4 distances)

lemma four_tours_sorted: "sort_members get_fitness four_tours = Inr [2, 0, 1, 3]"
  by (simp add: sort_members_def four_tours_def four_tours_fitness)

lemma cities_differ:
  "city_A \<noteq> city_B" "city_A \<noteq> city_C" "city_A \<noteq> city_D" "city_B \<noteq> city_C"
  "city_B \<noteq> city_D" "city_C \<noteq> city_D"
  "city_B \<noteq> city_A" "city_C \<noteq> city_A" "city_D \<noteq> city_A" "city_C \<noteq> city_B"
  "city_D \<noteq> city_B" "city_D \<noteq> city_C"
  by (simp_all add: city_A_def city_B_def city_C_def city_D_def)

lemma four_tours_crossover:
  "crossover (0, 2) [Some city_A, Some city_B, Some city_D, Some city_C]
       [Some city_B, Some city_A, Some city_C, Some city_D] ''ox''
     = Some (Inr (Some ([Some city_B, Some city_A, Some city_D, Some city_C],
                        [Some city_A, Some city_B, Some city_C, Some city_D])))"
  by (simp add: crossover_def order_crossover_def sample2_def slice_def slice_assign_def
        orderly_insert_def upt_rec [of _ "numeral _"] cities_differ Let_def)

lemma four_tours_step:
  "\<exists>P' best. generate_next_generation 2 2 get_fitness (\<lambda>i. i) fixed_draws ''ox'' ''swap'' four_tours
      = Some (Inr (P', best))"
  by (simp add: generate_next_generation_def top_k_selection_def four_tours_sorted last_slice_def
      upt_rec [of _ "numeral _"] reproduce_def four_tours_crossover sample2_def
      new_genome_def mutate_genome_def mutate_def Let_def
      swap_mutation_def swap_at_def sort_members_def four_tours_def four_tours_fitness fixed_draws_def)

subsection \<open>The genome handed back and the elite\<close>

lemma sorted_le_last:
  assumes "sorted xs" and "x \<in> set xs"
  shows "x \<le> last xs"
proof -
  from assms(2) obtain i where i: "i < length xs" "xs ! i = x" by (auto simp: in_set_conv_nth)
  then have "xs \<noteq> []" by auto
  then have "last xs = xs ! (length xs - 1)" by (rule last_conv_nth)
  moreover have "xs ! i \<le> xs ! (length xs - 1)"
    using assms(1) i by (intro sorted_nth_mono) auto
  ultimately show ?thesis using i by simp
qed

lemma four_tours_allocated: "members_allocated four_tours"
  by (simp add: members_allocated_def four_tours_def)

text \<open>
  Not every population with a member gets a genome back. The four tours with an elitism
  of 1 leave three parents to draw: the second pass of the loop reads \<^verbatim>\<open>parents[3]\<close> and
  the step raises \<^verbatim>\<open>IndexError\<close>.
\<close>

theorem odd_number_of_parents_raises_counterexample:
  "members four_tours \<noteq> [] \<and> pop_size four_tours = length (members four_tours) \<and>
   generate_next_generation 1 2 get_fitness (\<lambda>i. i) fixed_draws ''ox'' ''swap'' four_tours
     = Some (Inl IndexError)"
  by (simp add: generate_next_generation_def top_k_selection_def four_tours_sorted last_slice_def
      upt_rec [of _ "numeral _"] reproduce_def four_tours_crossover sample2_def
      new_genome_def mutate_genome_def mutate_def Let_def
      swap_mutation_def swap_at_def sort_members_def four_tours_def four_tours_fitness fixed_draws_def
      numeral_2_eq_2 [symmetric] numeral_3_eq_3 [symmetric])

text \<open>
  C2, as amended. Whenever a step returns, the genome it hands back is a member of the
  population as it was before the step, no member of that population has a higher
  fitness, and its chromosome is as it was: it is the fittest of the old members, not of
  the new ones.
\<close>

theorem generate_next_generation_returns_fittest_of_previous:
  assumes run: "generate_next_generation elitism top_k fit picks draws c_type m_type P = Some (Inr (P', best))"
    and wf: "members_allocated P"
  shows "best \<in> set (members P) \<and> chromosome_of P' best = chromosome_of P best \<and>
         (\<exists>key. (\<forall>x \<in> set (members P). fit (chromosome_of P x) = Inr (key x)) \<and>
                (\<forall>x \<in> set (members P). key x \<le> key best))"
proof -
  from run wf obtain sorted_members where
    srt: "sort_members fit P = Inr sorted_members" and ne: "sorted_members \<noteq> []" and
    best: "best = last sorted_members" and
    frame: "\<forall>r < allocated P. chromosome_of P' r = chromosome_of P r"
    by (rule generate_next_generation_effect)
  have same: "set sorted_members = set (members P)"
    using sort_members_mset [OF srt] by (rule mset_eq_setD)
  from sort_members_key [OF srt] obtain key where
    key: "\<forall>x \<in> set (members P). fit (chromosome_of P x) = Inr (key x)" and
    asc: "sorted (map key sorted_members)" by blast
  have mem: "best \<in> set (members P)"
    unfolding best same [symmetric] using ne by (rule last_in_set)
  then have "best < allocated P" using wf by (simp add: members_allocated_def list_all_iff)
  with frame have unchanged: "chromosome_of P' best = chromosome_of P best" by simp
  have "key x \<le> key best" if "x \<in> set (members P)" for x
  proof -
    from that same have "key x \<in> set (map key sorted_members)" by simp
    from sorted_le_last [OF asc this] show ?thesis using ne best by (simp add: last_map)
  qed
  then have "\<forall>x \<in> set (members P). key x \<le> key best" by simp
  with key have "\<exists>key. (\<forall>x \<in> set (members P). fit (chromosome_of P x) = Inr (key x)) \<and>
                (\<forall>x \<in> set (members P). key x \<le> key best)"
    by (intro exI [of _ key] conjI)
  with mem unchanged show ?thesis by simp
qed

text \<open>A step of the four tours with an elitism of 2, and what the theorem says about it.\<close>

theorem generate_next_generation_returns_fittest_of_previous_witness:
  "\<exists>P' best.
     generate_next_generation 2 2 get_fitness (\<lambda>i. i) fixed_draws ''ox'' ''swap'' four_tours
       = Some (Inr (P', best)) \<and>
     members_allocated four_tours \<and>
     best \<in> set (members four_tours) \<and>
     chromosome_of P' best = chromosome_of four_tours best"
proof -
  from four_tours_step obtain P' best where
    run: "generate_next_generation 2 2 get_fitness (\<lambda>i. i) fixed_draws ''ox'' ''swap'' four_tours
            = Some (Inr (P', best))" by blast
  from generate_next_generation_returns_fittest_of_previous [OF run four_tours_allocated]
  show ?thesis using run four_tours_allocated by blast
qed

text \<open>
  C7. When a step returns, let \<open>sorted_members\<close> be the old members in ascending order of
  fitness, as \<^verbatim>\<open>__sort_members\<close> gives them. Each of its last \<open>elitism\<close> entries, the fittest
  ones, is a member of the next generation under the same reference (the object itself,
  not a copy), and the chromosome of that object is as it was before the step.
\<close>

theorem generate_next_generation_carries_elite_by_reference:
  assumes run: "generate_next_generation elitism top_k fit picks draws c_type m_type P = Some (Inr (P', best))"
    and wf: "members_allocated P"
  shows "\<exists>sorted_members key.
           sort_members fit P = Inr sorted_members \<and>
           mset sorted_members = mset (members P) \<and>
           (\<forall>x \<in> set (members P). fit (chromosome_of P x) = Inr (key x)) \<and>
           sorted (map key sorted_members) \<and>
           (\<forall>r \<in> set (drop (length sorted_members - elitism) sorted_members).
              r \<in> set (members P') \<and> chromosome_of P' r = chromosome_of P r)"
proof -
  from run wf obtain children sorted_members where
    srt: "sort_members fit P = Inr sorted_members" and
    mem: "members P' = children @ last_slice elitism sorted_members" and
    frame: "\<forall>r < allocated P. chromosome_of P' r = chromosome_of P r"
    by (rule generate_next_generation_effect)
  note perm = sort_members_mset [OF srt]
  from sort_members_key [OF srt] obtain key where
    key: "\<forall>x \<in> set (members P). fit (chromosome_of P x) = Inr (key x)" and
    asc: "sorted (map key sorted_members)" by blast
  have "r \<in> set (members P') \<and> chromosome_of P' r = chromosome_of P r"
    if r: "r \<in> set (drop (length sorted_members - elitism) sorted_members)" for r
  proof -
    from r have "r \<in> set (last_slice elitism sorted_members)"
      by (auto simp: last_slice_def dest: in_set_dropD)
    with mem have in': "r \<in> set (members P')" by simp
    from r have "r \<in> set sorted_members" by (rule in_set_dropD)
    with mset_eq_setD [OF perm] have "r \<in> set (members P)" by simp
    with wf have "r < allocated P" by (simp add: members_allocated_def list_all_iff)
    with frame in' show ?thesis by simp
  qed
  then have "\<forall>r \<in> set (drop (length sorted_members - elitism) sorted_members).
              r \<in> set (members P') \<and> chromosome_of P' r = chromosome_of P r" by simp
  with srt perm key asc show ?thesis
    by (intro exI [of _ sorted_members] exI [of _ key] conjI)
qed

text \<open>In a step of the four tours with an elitism of 2 the genomes 1 and 3 are carried over.\<close>

theorem generate_next_generation_carries_elite_by_reference_witness:
  "\<exists>P' best.
     generate_next_generation 2 2 get_fitness (\<lambda>i. i) fixed_draws ''ox'' ''swap'' four_tours
       = Some (Inr (P', best)) \<and>
     members_allocated four_tours \<and>
     1 \<in> set (members P') \<and> chromosome_of P' 1 = chromosome_of four_tours 1 \<and>
     3 \<in> set (members P') \<and> chromosome_of P' 3 = chromosome_of four_tours 3"
proof -
  from four_tours_step obtain P' best where
    run: "generate_next_generation 2 2 get_fitness (\<lambda>i. i) fixed_draws ''ox'' ''swap'' four_tours
            = Some (Inr (P', best))" by blast
  from generate_next_generation_carries_elite_by_reference [OF run four_tours_allocated]
  obtain sorted_members where
    srt: "sort_members get_fitness four_tours = Inr sorted_members" and
    elite: "\<forall>r \<in> set (drop (length sorted_members - 2) sorted_members).
              r \<in> set (members P') \<and> chromosome_of P' r = chromosome_of four_tours r"
    by blast
  from srt have "sorted_members = [2, 0, 1, 3]" by (simp add: four_tours_sorted)
  with elite have "1 \<in> set (members P') \<and> chromosome_of P' 1 = chromosome_of four_tours 1 \<and>
     3 \<in> set (members P') \<and> chromosome_of P' 3 = chromosome_of four_tours 3" by simp
  with run four_tours_allocated show ?thesis by blast
qed

subsection \<open>The number of members\<close>

text \<open>
  With an elitism of at least one and at most the size, a step that returns leaves as many
  members as the population had.
\<close>

lemma generate_next_generation_keeps_size:
  assumes run: "generate_next_generation elitism top_k fit picks draws c_type m_type P = Some (Inr (P', best))"
    and wf: "members_allocated P"
    and size: "pop_size P = length (members P)"
    and elitism: "0 < elitism" "elitism \<le> pop_size P"
  shows "length (members P') = pop_size P \<and> pop_size P' = pop_size P"
proof -
  from run wf obtain children sorted_members where
    srt: "sort_members fit P = Inr sorted_members" and
    mem: "members P' = children @ last_slice elitism sorted_members" and
    same: "pop_size P' = pop_size P" and
    len: "length children = 2 * ((pop_size P - elitism + 1) div 2)" and
    parity: "pop_size P - elitism = 0 \<or> even (pop_size P - elitism)"
    by (rule generate_next_generation_effect)
  have "length sorted_members = pop_size P"
    using mset_eq_length [OF sort_members_mset [OF srt]] size by simp
  with elitism have "length (last_slice elitism sorted_members) = elitism"
    by (simp add: last_slice_length)
  moreover from parity have "2 * ((pop_size P - elitism + 1) div 2) = pop_size P - elitism"
    by auto
  ultimately have "length (members P') = pop_size P" using mem len elitism by simp
  with same show ?thesis by simp
qed

lemma four_tours_step_without_elitism:
  "\<exists>P' best. generate_next_generation 0 2 get_fitness (\<lambda>i. i) fixed_draws ''ox'' ''swap'' four_tours
      = Some (Inr (P', best))"
  by (simp add: generate_next_generation_def top_k_selection_def four_tours_sorted last_slice_def
      upt_rec [of _ "numeral _"] reproduce_def four_tours_crossover sample2_def
      new_genome_def mutate_genome_def mutate_def Let_def
      swap_mutation_def swap_at_def sort_members_def four_tours_def four_tours_fitness fixed_draws_def
      numeral_2_eq_2 [symmetric] numeral_3_eq_3 [symmetric])

text \<open>
  C6. With \<^verbatim>\<open>ELITISM = 0\<close> the slice \<^verbatim>\<open>sorted_members[-0:]\<close> is the whole list: the four tours,
  a population of size 4 (and 4 - 0 is even), have 8 members after one step.
\<close>

theorem generate_next_generation_without_elitism_doubles:
  "\<exists>P' best.
     generate_next_generation 0 2 get_fitness (\<lambda>i. i) fixed_draws ''ox'' ''swap'' four_tours
       = Some (Inr (P', best)) \<and>
     pop_size four_tours = 4 \<and> length (members four_tours) = 4 \<and> length (members P') = 8"
proof -
  from four_tours_step_without_elitism obtain P' best where
    run: "generate_next_generation 0 2 get_fitness (\<lambda>i. i) fixed_draws ''ox'' ''swap'' four_tours
            = Some (Inr (P', best))" by blast
  from run four_tours_allocated obtain children sorted_members where
    srt: "sort_members get_fitness four_tours = Inr sorted_members" and
    mem: "members P' = children @ last_slice 0 sorted_members" and
    len: "length children = 2 * ((pop_size four_tours - 0 + 1) div 2)"
    by (rule generate_next_generation_effect)
  from srt have "sorted_members = [2, 0, 1, 3]" by (simp add: four_tours_sorted)
  with mem len have "length (members P') = 8" by (simp add: last_slice_def four_tours_def)
  moreover have "pop_size four_tours = 4" "length (members four_tours) = 4"
    by (simp_all add: four_tours_def)
  ultimately show ?thesis using run by blast
qed

section \<open>The fitness in exact arithmetic\<close>

lemma distance_commute: "distance city1 city2 = distance city2 city1"
  by (simp add: distance_def power2_commute)

text \<open>The loop of \<open>get_fitness\<close> over the first \<open>k\<close> positions.\<close>

lemma get_fitness_loop:
  fixes chromosome :: "city option list"
  defines "step \<equiv> \<lambda>i acc. case acc of
                            Inl e \<Rightarrow> Inl e
                          | Inr fitness \<Rightarrow>
                              (case chromosome ! i of
                                 None \<Rightarrow> Inl AttributeError
                               | Some city1 \<Rightarrow>
                                   (case chromosome ! ((i + 1) mod length chromosome) of
                                      None \<Rightarrow> Inl AttributeError
                                    | Some city2 \<Rightarrow> Inr (fitness + distance city1 city2)))"
  shows "fold step [0 ..< k] (Inr a) =
           (if \<exists>i<k. chromosome ! i = None \<or> chromosome ! ((i + 1) mod length chromosome) = None
            then Inl AttributeError
            else Inr (a + (\<Sum>i<k. distance (the (chromosome ! i))
                                    (the (chromosome ! ((i + 1) mod length chromosome))))))"
proof (induction k)
  case 0
  show ?case by simp
next
  case (Suc k)
  let ?n = "length chromosome"
  let ?sum = "\<lambda>k. \<Sum>i<k. distance (the (chromosome ! i)) (the (chromosome ! ((i + 1) mod ?n)))"
  let ?bad = "\<lambda>k. \<exists>i<k. chromosome ! i = None \<or> chromosome ! ((i + 1) mod ?n) = None"
  note prev = Suc.IH
  have bad_Suc: "?bad (Suc k) \<longleftrightarrow> ?bad k \<or> chromosome ! k = None \<or> chromosome ! ((k + 1) mod ?n) = None"
    by (auto simp: less_Suc_eq)
  have "fold step [0 ..< Suc k] (Inr a) = step k (fold step [0 ..< k] (Inr a))" by simp
  also have "\<dots> = (if ?bad (Suc k) then Inl AttributeError else Inr (a + ?sum (Suc k)))"
  proof (cases "?bad k")
    case True
    with prev bad_Suc show ?thesis by (simp add: step_def)
  next
    case False
    show ?thesis
    proof (cases "chromosome ! k")
      case None
      with prev False bad_Suc show ?thesis by (simp add: step_def)
    next
      case (Some city1)
      show ?thesis
      proof (cases "chromosome ! ((k + 1) mod ?n)")
        case None
        with prev False bad_Suc Some show ?thesis by (simp add: step_def)
      next
        case (Some city2)
        with prev False bad_Suc \<open>chromosome ! k = Some city1\<close> show ?thesis
          by (simp add: step_def)
      qed
    qed
  qed
  finally show ?case .
qed

text \<open>\<open>get_fitness\<close> is the inverse of the length of the closed tour.\<close>

lemma get_fitness_tour:
  fixes chromosome :: "city option list"
  shows "get_fitness chromosome =
           (if None \<in> set chromosome then Inl AttributeError
            else if (\<Sum>i<length chromosome. distance (the (chromosome ! i))
                       (the (chromosome ! ((i + 1) mod length chromosome)))) = 0
                 then Inl ZeroDivisionError
                 else Inr (1 / (\<Sum>i<length chromosome. distance (the (chromosome ! i))
                                  (the (chromosome ! ((i + 1) mod length chromosome))))))"
proof -
  let ?n = "length chromosome"
  have "(\<exists>i<?n. chromosome ! i = None \<or> chromosome ! ((i + 1) mod ?n) = None) \<longleftrightarrow>
        None \<in> set chromosome"
  proof
    assume "\<exists>i<?n. chromosome ! i = None \<or> chromosome ! ((i + 1) mod ?n) = None"
    then obtain i where i: "i < ?n" "chromosome ! i = None \<or> chromosome ! ((i + 1) mod ?n) = None"
      by blast
    then have "0 < ?n" by linarith
    then have "(i + 1) mod ?n < ?n" by (rule mod_less_divisor)
    then have "chromosome ! ((i + 1) mod ?n) \<in> set chromosome" by (rule nth_mem)
    moreover have "chromosome ! i \<in> set chromosome" using i(1) by (rule nth_mem)
    ultimately show "None \<in> set chromosome" using i(2) by auto
  next
    assume "None \<in> set chromosome"
    then obtain i where "i < ?n" "chromosome ! i = None" by (auto simp: in_set_conv_nth)
    then show "\<exists>i<?n. chromosome ! i = None \<or> chromosome ! ((i + 1) mod ?n) = None" by blast
  qed
  with get_fitness_loop [of chromosome ?n 0] show ?thesis
    by (simp add: get_fitness_def)
qed

text \<open>Positions on a closed tour.\<close>

lemma succ_mod_pred:
  fixes a n :: nat
  assumes "a < n"
  shows "(if (a + 1) mod n = 0 then n - 1 else (a + 1) mod n - 1) = a"
proof (cases "a + 1 = n")
  case True
  then have "n = Suc a" by simp
  then show ?thesis by simp
next
  case False
  with assms have "Suc a < n" by simp
  then show ?thesis by simp
qed

lemma pred_succ_mod:
  fixes b n :: nat
  assumes "b < n"
  shows "((if b = 0 then n - 1 else b - 1) + 1) mod n = b"
proof (cases "b = 0")
  case True
  with assms show ?thesis by simp
next
  case False
  with assms show ?thesis by simp
qed

lemma rev_succ_mod:
  fixes i n :: nat
  assumes "i < n"
  shows "(n - 1 - (i + 1) mod n + 1) mod n = n - Suc i"
proof (cases "i + 1 = n")
  case True
  then have "n = Suc i" by simp
  then show ?thesis by simp
next
  case False
  with assms have "Suc i < n" by simp
  then show ?thesis by simp
qed

lemma rev_index_back:
  fixes a n :: nat
  assumes "a < n"
  shows "(if n - 1 - (a + 1) mod n = n - 1 then n - 1 else n - 2 - (n - 1 - (a + 1) mod n)) = a"
proof (cases "a + 1 = n")
  case True
  then have "n = Suc a" by simp
  then show ?thesis by simp
next
  case False
  with assms have "Suc a < n" by simp
  then show ?thesis by auto
qed

lemma rev_index_forth:
  fixes b n :: nat
  assumes "b < n"
  shows "n - 1 - ((if b = n - 1 then n - 1 else n - 2 - b) + 1) mod n = b"
proof (cases "b = n - 1")
  case True
  with assms show ?thesis by simp
next
  case False
  with assms have "b + 1 < n" by simp
  then have "n - 2 - b + 1 = n - 1 - b" by simp
  moreover have "n - 1 - b < n" using assms by simp
  ultimately have "(n - 2 - b + 1) mod n = n - 1 - b" by simp
  with False assms show ?thesis by simp
qed

text \<open>The sum over the edges of a closed tour, for any edge weight \<open>d\<close>.\<close>

lemma tour_sum_rotate1:
  fixes d :: "'a \<Rightarrow> 'a \<Rightarrow> real"
  shows "(\<Sum>i<length xs. d (rotate1 xs ! i) (rotate1 xs ! ((i + 1) mod length xs)))
       = (\<Sum>i<length xs. d (xs ! i) (xs ! ((i + 1) mod length xs)))"
proof (cases "xs = []")
  case True
  then show ?thesis by simp
next
  case False
  let ?n = "length xs"
  let ?G = "\<lambda>j. d (xs ! j) (xs ! ((j + 1) mod ?n))"
  let ?j = "\<lambda>i. (i + 1) mod ?n"
  let ?i = "\<lambda>b. if b = 0 then ?n - 1 else b - 1"
  from False have n: "0 < ?n" by simp
  have summand: "d (rotate1 xs ! i) (rotate1 xs ! ((i + 1) mod ?n)) = ?G (?j i)" if "i < ?n" for i
  proof -
    have "(i + 1) mod ?n < ?n" using n by (rule mod_less_divisor)
    then have "rotate1 xs ! ((i + 1) mod ?n) = xs ! (Suc ((i + 1) mod ?n) mod ?n)"
      by (rule nth_rotate1)
    moreover have "rotate1 xs ! i = xs ! (Suc i mod ?n)" using that by (rule nth_rotate1)
    ultimately show ?thesis by simp
  qed
  have "(\<Sum>i<?n. d (rotate1 xs ! i) (rotate1 xs ! ((i + 1) mod ?n))) = (\<Sum>i<?n. ?G (?j i))"
  proof (rule sum.cong [OF refl])
    fix i assume "i \<in> {..<?n}"
    then have "i < ?n" by simp
    then show "d (rotate1 xs ! i) (rotate1 xs ! ((i + 1) mod ?n)) = ?G (?j i)" by (rule summand)
  qed
  also have "\<dots> = (\<Sum>b<?n. ?G b)"
  proof (rule sum.reindex_bij_witness [where i = ?i and j = ?j])
    fix a assume "a \<in> {..<?n}"
    then have a: "a < ?n" by simp
    show "?i (?j a) = a" using a by (rule succ_mod_pred)
    show "?j a \<in> {..<?n}" using n by simp
    show "?G (?j a) = ?G (?j a)" ..
  next
    fix b assume "b \<in> {..<?n}"
    then have b: "b < ?n" by simp
    show "?j (?i b) = b" using b by (rule pred_succ_mod)
    show "?i b \<in> {..<?n}" using b n by auto
  qed
  finally show ?thesis .
qed

lemma tour_sum_rotate:
  fixes d :: "'a \<Rightarrow> 'a \<Rightarrow> real"
  shows "(\<Sum>i<length xs. d (rotate k xs ! i) (rotate k xs ! ((i + 1) mod length xs)))
       = (\<Sum>i<length xs. d (xs ! i) (xs ! ((i + 1) mod length xs)))"
proof (induction k)
  case 0
  show ?case by simp
next
  case (Suc k)
  have "(\<Sum>i<length xs. d (rotate (Suc k) xs ! i) (rotate (Suc k) xs ! ((i + 1) mod length xs)))
      = (\<Sum>i<length (rotate k xs). d (rotate1 (rotate k xs) ! i)
            (rotate1 (rotate k xs) ! ((i + 1) mod length (rotate k xs))))"
    by simp
  also have "\<dots> = (\<Sum>i<length (rotate k xs). d (rotate k xs ! i)
                       (rotate k xs ! ((i + 1) mod length (rotate k xs))))"
    by (rule tour_sum_rotate1)
  also have "\<dots> = (\<Sum>i<length xs. d (xs ! i) (xs ! ((i + 1) mod length xs)))"
    using Suc.IH by simp
  finally show ?case .
qed

lemma tour_sum_rev:
  fixes d :: "'a \<Rightarrow> 'a \<Rightarrow> real"
  assumes sym: "\<And>a b. d a b = d b a"
  shows "(\<Sum>i<length xs. d (rev xs ! i) (rev xs ! ((i + 1) mod length xs)))
       = (\<Sum>i<length xs. d (xs ! i) (xs ! ((i + 1) mod length xs)))"
proof (cases "xs = []")
  case True
  then show ?thesis by simp
next
  case False
  let ?n = "length xs"
  let ?G = "\<lambda>j. d (xs ! j) (xs ! ((j + 1) mod ?n))"
  let ?j = "\<lambda>i. ?n - 1 - (i + 1) mod ?n"
  let ?i = "\<lambda>b. if b = ?n - 1 then ?n - 1 else ?n - 2 - b"
  from False have n: "0 < ?n" by simp
  have summand: "d (rev xs ! i) (rev xs ! ((i + 1) mod ?n)) = ?G (?j i)" if "i < ?n" for i
  proof -
    have lt: "(i + 1) mod ?n < ?n" using n by (rule mod_less_divisor)
    have "rev xs ! i = xs ! (?n - Suc i)" using that by (rule rev_nth)
    moreover have "rev xs ! ((i + 1) mod ?n) = xs ! (?n - Suc ((i + 1) mod ?n))"
      using lt by (rule rev_nth)
    moreover have "(?j i + 1) mod ?n = ?n - Suc i" using that by (rule rev_succ_mod)
    moreover have "?n - Suc ((i + 1) mod ?n) = ?j i" by simp
    ultimately show ?thesis using sym [of "xs ! (?n - Suc i)"] by simp
  qed
  have "(\<Sum>i<?n. d (rev xs ! i) (rev xs ! ((i + 1) mod ?n))) = (\<Sum>i<?n. ?G (?j i))"
  proof (rule sum.cong [OF refl])
    fix i assume "i \<in> {..<?n}"
    then have "i < ?n" by simp
    then show "d (rev xs ! i) (rev xs ! ((i + 1) mod ?n)) = ?G (?j i)" by (rule summand)
  qed
  also have "\<dots> = (\<Sum>b<?n. ?G b)"
  proof (rule sum.reindex_bij_witness [where i = ?i and j = ?j])
    fix a assume "a \<in> {..<?n}"
    then have a: "a < ?n" by simp
    show "?i (?j a) = a" using a by (rule rev_index_back)
    show "?j a \<in> {..<?n}" using n by simp
    show "?G (?j a) = ?G (?j a)" ..
  next
    fix b assume "b \<in> {..<?n}"
    then have b: "b < ?n" by simp
    show "?j (?i b) = b" using b by (rule rev_index_forth)
    show "?i b \<in> {..<?n}" using b n by auto
  qed
  finally show ?thesis .
qed

text \<open>
  With real numbers for the floating point numbers of the program, the fitness does not
  change when the chromosome is rotated or reversed. The program adds the edge lengths as
  floating point numbers in the order of the chromosome; these lemmas say nothing about
  how that sum rounds.
\<close>

lemma get_fitness_rotate: "get_fitness (rotate k chromosome) = get_fitness chromosome"
  using tour_sum_rotate [of "\<lambda>a b. distance (the a) (the b)" k chromosome]
  by (simp add: get_fitness_tour)

lemma get_fitness_rev: "get_fitness (rev chromosome) = get_fitness chromosome"
  using tour_sum_rev [of "\<lambda>a b. distance (the a) (the b)" chromosome] distance_commute
  by (simp add: get_fitness_tour)

end
